theory Spec2Isabelle
  imports Complex_Main
begin

section \<open>The device: one clock and two analog pins\<close>

text \<open>
  The extension talks to the board through four primitives: \<^verbatim>\<open>control.millis()\<close>,
  \<^verbatim>\<open>input.runningTimeMicros()\<close>, \<^verbatim>\<open>control.waitMicros(n)\<close> and
  \<^verbatim>\<open>pins.analogReadPin(p)\<close>. The board is a record: the running time in microseconds
  and, for each of the two pins the extension reads, the conversions still to come, each
  with the time it takes (microseconds) and the ADC count it delivers. Both clocks read the
  same counter. Arithmetic of the script costs no time; time passes in a conversion, in a
  wait and while an icon or a tone is shown.

  A read on a pin with no conversion left gives \<open>None\<close>: the recorded signal is
  shorter than the run. This is the only way a function below gives \<open>None\<close>.

  Numbers of the script are doubles. The samples are ADC counts and the clock readings are
  whole numbers; the model keeps them, their sums, their means and the constants they are
  compared with as reals. In \<^verbatim>\<open>calculateSlope\<close>, where a property below is about the
  exact value, every arithmetic result is rounded to a double (\<open>dbl\<close>). A division is
  \<open>js_div\<close>, which keeps the three results a zero divisor has in the script.
\<close>

datatype AnalogPin = P0 | P1

record world =
  now :: nat
  p0 :: "(nat \<times> nat) list"
  p1 :: "(nat \<times> nat) list"

definition millis :: "world \<Rightarrow> real" where
  "millis w = real (now w div 1000)"

definition runningTimeMicros :: "world \<Rightarrow> real" where
  "runningTimeMicros w = real (now w)"

definition waitMicros :: "real \<Rightarrow> world \<Rightarrow> world" where
  "waitMicros us w = w\<lparr>now := now w + nat \<lfloor>us\<rfloor>\<rparr>"

fun analogReadPin :: "AnalogPin \<Rightarrow> world \<Rightarrow> (real \<times> world) option" where
  "analogReadPin P0 w =
     (case p0 w of
        [] \<Rightarrow> None
      | (d, v) # rest \<Rightarrow> Some (real v, w\<lparr>now := now w + d, p0 := rest\<rparr>))"
| "analogReadPin P1 w =
     (case p1 w of
        [] \<Rightarrow> None
      | (d, v) # rest \<Rightarrow> Some (real v, w\<lparr>now := now w + d, p1 := rest\<rparr>))"

definition eeg :: "world \<Rightarrow> (real \<times> world) option" where
  "eeg = analogReadPin P0"

definition emg :: "world \<Rightarrow> (real \<times> world) option" where
  "emg = analogReadPin P0"

definition ecg :: "world \<Rightarrow> (real \<times> world) option" where
  "ecg = analogReadPin P1"

definition eog :: "world \<Rightarrow> (real \<times> world) option" where
  "eog = analogReadPin P0"

text \<open>The samples still to come on a pin, and the time their conversions take.\<close>

definition duration :: "(nat \<times> nat) list \<Rightarrow> nat" where
  "duration ps = sum_list (map fst ps)"

definition readings :: "(nat \<times> nat) list \<Rightarrow> real list" where
  "readings ps = map (\<lambda>(d, v). real v) ps"

text \<open>
  The end of every throttled loop body:
  \<^verbatim>\<open>elapsed_time = input.runningTimeMicros() - sample_time;
  if (elapsed_time < period) control.waitMicros(period - elapsed_time);
  sample_time = input.runningTimeMicros();\<close>
  It gives the board after the wait; the new \<open>sample_time\<close> is its running time.
\<close>

definition samplingRate :: "real \<Rightarrow> real \<Rightarrow> world \<Rightarrow> world" where
  "samplingRate period sample_time w =
     (let elapsed_time = runningTimeMicros w - sample_time
      in if elapsed_time < period then waitMicros (period - elapsed_time) w else w)"

datatype jsnum = Num real | PosInfinity | NegInfinity | NaN

definition js_div :: "real \<Rightarrow> real \<Rightarrow> jsnum" where
  "js_div a b =
     (if b = 0 then (if a = 0 then NaN else if 0 < a then PosInfinity else NegInfinity)
      else Num (a / b))"

section \<open>getThreshold\<close>

function getThreshold_loop :: "real \<Rightarrow> real \<Rightarrow> real \<Rightarrow> world \<Rightarrow> (real \<times> world) option" where
  "getThreshold_loop ms startTimer max_val w =
     (if millis w - startTimer < ms then
        (case emg w of
           None \<Rightarrow> None
         | Some (val, w') \<Rightarrow>
             getThreshold_loop ms startTimer (if max_val < val then val else max_val) w')
      else Some (max_val, w))"
  by pat_completeness auto
termination
  by (relation "measure (\<lambda>(ms, startTimer, max_val, w). length (p0 w))")
    (auto simp: emg_def split: list.splits)

declare getThreshold_loop.simps [simp del]

text \<open>
  \<^verbatim>\<open>percent\<close> is declared \<^verbatim>\<open>percent?: number\<close> and the body gives it no default: a call
  that leaves it out has \<^verbatim>\<open>undefined\<close> there, here \<open>None\<close>, and
  \<^verbatim>\<open>max_val * (percent / 100)\<close> is then \<open>NaN\<close>.
\<close>

definition scale_percent :: "real \<Rightarrow> real option \<Rightarrow> jsnum" where
  "scale_percent max_val percent =
     (case percent of None \<Rightarrow> NaN | Some p \<Rightarrow> Num (max_val * (p / 100)))"

definition getThreshold :: "real \<Rightarrow> real option \<Rightarrow> world \<Rightarrow> (jsnum \<times> world) option" where
  "getThreshold ms percent w =
     (case getThreshold_loop ms (millis w) 0 w of
        None \<Rightarrow> None
      | Some (max_val, w') \<Rightarrow> Some (scale_percent max_val percent, w'))"

section \<open>calculateSlope\<close>

text \<open>
  The doubles: \<open>dbl x\<close> is the double nearest to \<open>x\<close>, ties to the even significand
  (IEEE 754 binary64, round to nearest even). \<open>binade x\<close> is the exponent \<open>e\<close> with
  \<open>2 ^ e \<le> \<bar>x\<bar> < 2 ^ (e + 1)\<close>, found by halving or doubling; the doubles of that
  binade are the multiples of \<open>2 ^ (e - 52)\<close>. The exponent range is not bounded: no
  overflow to infinity above \<open>2 ^ 1024\<close> and no loss of precision below \<open>2 ^ - 1022\<close>,
  magnitudes that the results below do not reach.
\<close>

function exp_up :: "real \<Rightarrow> int" where
  "exp_up x = (if 2 \<le> x then exp_up (x / 2) + 1 else 0)"
  by auto
termination
  by (relation "measure (\<lambda>x. nat \<lfloor>x\<rfloor>)") (auto, linarith)

function exp_down :: "real \<Rightarrow> int" where
  "exp_down x = (if 0 < x \<and> x < 1 then exp_down (2 * x) - 1 else 0)"
  by auto
termination
proof (relation "measure (\<lambda>x. nat \<lceil>1 / x\<rceil>)")
  show "wf (measure (\<lambda>x. nat \<lceil>1 / x\<rceil>))" by simp
next
  fix x :: real
  assume x: "0 < x \<and> x < 1"
  then have y: "1 < 1 / x" by simp
  then have c: "2 \<le> \<lceil>1 / x\<rceil>" by linarith
  have "1 / (2 * x) = (1 / x) / 2" by simp
  also have "\<dots> \<le> of_int \<lceil>1 / x\<rceil> / 2" by (simp add: divide_right_mono)
  also from c have "\<dots> \<le> of_int (\<lceil>1 / x\<rceil> - 1)" by simp
  finally have "\<lceil>1 / (2 * x)\<rceil> \<le> \<lceil>1 / x\<rceil> - 1" by (rule ceiling_le)
  with c x show "(2 * x, x) \<in> measure (\<lambda>x. nat \<lceil>1 / x\<rceil>)" by simp
qed

declare exp_up.simps [simp del] exp_down.simps [simp del]

definition binade :: "real \<Rightarrow> int" where
  "binade x = (if 1 \<le> \<bar>x\<bar> then exp_up \<bar>x\<bar> else exp_down \<bar>x\<bar>)"

definition pow2 :: "int \<Rightarrow> real" where
  "pow2 e = (if 0 \<le> e then 2 ^ nat e else 1 / 2 ^ nat (- e))"

definition round_even :: "real \<Rightarrow> int" where
  "round_even y =
     (let f = \<lfloor>y\<rfloor>; r = y - of_int f
      in if r < 1 / 2 then f else if 1 / 2 < r then f + 1 else if even f then f else f + 1)"

definition dbl :: "real \<Rightarrow> real" where
  "dbl x = (let u = pow2 (binade x - 52) in of_int (round_even (x / u)) * u)"

text \<open>
  Lines 424 to 439, with the rounding of each operation of the script as a parameter:
  \<open>calculateSlope\<close> is the function of the script, in doubles;
  \<open>calculateSlope_with (\<lambda>v. v)\<close> is the same formula in exact arithmetic.
\<close>

definition calculateSlope_with :: "(real \<Rightarrow> real) \<Rightarrow> real list \<Rightarrow> jsnum" where
  "calculateSlope_with rnd data =
     (let n = length data;
          (xSum, ySum, xySum, xSquaredSum) =
            fold (\<lambda>x (xSum, ySum, xySum, xSquaredSum).
                    (rnd (xSum + real x), rnd (ySum + data ! x),
                     rnd (xySum + rnd (real x * data ! x)),
                     rnd (xSquaredSum + rnd (real x * real x))))
              [0..<n] (0, 0, 0, 0);
          numerator = rnd (rnd (real n * xySum) - rnd (xSum * ySum));
          denominator = rnd (rnd (real n * xSquaredSum) - rnd (xSum * xSum))
      in case js_div numerator denominator of Num q \<Rightarrow> Num (rnd q) | r \<Rightarrow> r)"

definition calculateSlope :: "real list \<Rightarrow> jsnum" where
  "calculateSlope = calculateSlope_with dbl"

section \<open>countSpikes\<close>

text \<open>
  The constants of \<^verbatim>\<open>countSpikes\<close>: \<open>down_sample_fs = 200\<close>, so \<open>period\<close> is
  5000 microseconds; \<open>buffer_size = 20\<close>, \<open>threshold = 150\<close>, \<open>interval = 500\<close>.
\<close>

abbreviation (input) period_cs :: real where "period_cs \<equiv> 1000000 / 200"
abbreviation (input) buffer_size_cs :: nat where "buffer_size_cs \<equiv> 20"
abbreviation (input) threshold_cs :: real where "threshold_cs \<equiv> 150"
abbreviation (input) interval_cs :: real where "interval_cs \<equiv> 500"

record spike_state =
  buffer :: "real list"
  smooth_signal :: real
  counter :: int
  checking_cs :: bool
  check_time :: real
  check_grip :: bool

definition movingAverage :: "real list \<Rightarrow> nat \<Rightarrow> real" where
  "movingAverage data windowSize =
     fold (\<lambda>j sum. sum + data ! j) [0..<windowSize] 0 / real windowSize"

text \<open>\<^verbatim>\<open>buffer.shift(); buffer.push(signal)\<close>: on an empty array \<open>shift\<close> removes nothing.\<close>

definition shift_push :: "real list \<Rightarrow> real \<Rightarrow> real list" where
  "shift_push b signal = tl b @ [signal]"

text \<open>
  The two \<^verbatim>\<open>if\<close>s that open a loop body of \<^verbatim>\<open>countSpikes\<close>, \<^verbatim>\<open>gazeH\<close> and
  \<^verbatim>\<open>blinks\<close>: first \<^verbatim>\<open>if (buffer.length < buffer_size) buffer.push(signal)\<close>, then, not
  as an else, \<^verbatim>\<open>if (buffer.length == buffer_size) { buffer.shift(); buffer.push(signal); ... }\<close>.
  \<open>fill\<close> is the first, \<open>window\<close> is the buffer after both.
\<close>

definition fill :: "nat \<Rightarrow> real list \<Rightarrow> real \<Rightarrow> real list" where
  "fill buffer_size b signal = (if length b < buffer_size then b @ [signal] else b)"

definition window :: "nat \<Rightarrow> real list \<Rightarrow> real \<Rightarrow> real list" where
  "window buffer_size b signal =
     (let b1 = fill buffer_size b signal
      in if length b1 = buffer_size then shift_push b1 signal else b1)"

text \<open>The inner \<^verbatim>\<open>while (smooth_signal > threshold)\<close>, with its own \<open>sample_time2\<close>.\<close>

definition rising_body :: "spike_state \<Rightarrow> real \<Rightarrow> world \<Rightarrow> (spike_state \<times> real \<times> world) option" where
  "rising_body s sample_time2 w =
     (case emg w of
        None \<Rightarrow> None
      | Some (signal, w1) \<Rightarrow>
          let b = shift_push (buffer s) signal;
              s1 = s\<lparr>buffer := b, smooth_signal := movingAverage b (length b)\<rparr>;
              s2 = (if \<not> checking_cs s1 then s1\<lparr>check_time := millis w1, checking_cs := True\<rparr> else s1);
              s3 = s2\<lparr>check_grip := True\<rparr>;
              w2 = samplingRate period_cs sample_time2 w1
          in Some (s3, runningTimeMicros w2, w2))"

lemma rising_body_p0:
  "rising_body s t w = Some (s', t', w') \<Longrightarrow> length (p0 w') < length (p0 w)"
  by (auto simp: rising_body_def emg_def samplingRate_def waitMicros_def Let_def
      split: list.splits option.splits if_splits)

function rising :: "spike_state \<Rightarrow> real \<Rightarrow> world \<Rightarrow> (spike_state \<times> world) option" where
  "rising s sample_time2 w =
     (if smooth_signal s > threshold_cs then
        (case rising_body s sample_time2 w of
           None \<Rightarrow> None
         | Some (s', sample_time2', w') \<Rightarrow> rising s' sample_time2' w')
      else Some (s, w))"
  by pat_completeness auto
termination
  by (relation "measure (\<lambda>(s, t, w). length (p0 w))") (auto dest: rising_body_p0)

declare rising.simps [simp del]

text \<open>Lines 197 to 211: what follows the inner loop.\<close>

definition settle :: "spike_state \<Rightarrow> world \<Rightarrow> spike_state" where
  "settle s w =
     (let s1 = s\<lparr>checking_cs := False\<rparr>;
          s2 = (if millis w - check_time s1 < interval_cs
                then s1\<lparr>check_grip := False, counter := counter s1 + 1,
                        check_time := - interval_cs\<rparr>
                else s1)
      in if check_grip s2 then s2\<lparr>counter := - 1\<rparr> else s2)"

definition countSpikes_body :: "spike_state \<Rightarrow> real \<Rightarrow> world \<Rightarrow> (spike_state \<times> real \<times> world) option" where
  "countSpikes_body s sample_time w =
     (case emg w of
        None \<Rightarrow> None
      | Some (signal, w1) \<Rightarrow>
          let b1 = fill buffer_size_cs (buffer s) signal
          in if length b1 = buffer_size_cs then
               (let b2 = shift_push b1 signal;
                    s1 = s\<lparr>buffer := b2, smooth_signal := movingAverage b2 (length b2)\<rparr>
                in case rising s1 (runningTimeMicros w1) w1 of
                     None \<Rightarrow> None
                   | Some (s2, w2) \<Rightarrow>
                       let s3 = settle s2 w2;
                           w3 = samplingRate period_cs sample_time w2
                       in Some (s3, runningTimeMicros w3, w3))
             else
               (let w3 = samplingRate period_cs sample_time w1
                in Some (s\<lparr>buffer := b1\<rparr>, runningTimeMicros w3, w3)))"

lemma samplingRate_p0 [simp]: "p0 (samplingRate p t w) = p0 w"
  by (simp add: samplingRate_def waitMicros_def Let_def)

lemma samplingRate_p1 [simp]: "p1 (samplingRate p t w) = p1 w"
  by (simp add: samplingRate_def waitMicros_def Let_def)

lemma emg_p0: "emg w = Some (v, w') \<Longrightarrow> length (p0 w) = Suc (length (p0 w'))"
  by (auto simp: emg_def split: list.splits)

lemma rising_p0: "rising s t w = Some (s', w') \<Longrightarrow> length (p0 w') \<le> length (p0 w)"
proof (induction s t w rule: rising.induct)
  case (1 s t w)
  show ?case
  proof (cases "smooth_signal s > threshold_cs")
    case True
    with "1.prems" obtain s1 t1 w1 where
      b: "rising_body s t w = Some (s1, t1, w1)" and r: "rising s1 t1 w1 = Some (s', w')"
      by (subst (asm) rising.simps) (auto split: option.splits)
    from "1.IH" [OF True b refl refl r] rising_body_p0 [OF b]
    show ?thesis by simp
  next
    case False
    with "1.prems" show ?thesis by (subst (asm) rising.simps) simp
  qed
qed

lemma countSpikes_body_p0:
  "countSpikes_body s t w = Some (s', t', w') \<Longrightarrow> length (p0 w') < length (p0 w)"
  by (auto simp: countSpikes_body_def Let_def split: option.splits if_splits
      dest!: emg_p0 rising_p0)

function countSpikes_loop :: "real \<Rightarrow> real \<Rightarrow> spike_state \<Rightarrow> real \<Rightarrow> world \<Rightarrow> (spike_state \<times> world) option" where
  "countSpikes_loop ms startTimer s sample_time w =
     (if millis w - startTimer < ms then
        (case countSpikes_body s sample_time w of
           None \<Rightarrow> None
         | Some (s', sample_time', w') \<Rightarrow> countSpikes_loop ms startTimer s' sample_time' w')
      else Some (s, w))"
  by pat_completeness auto
termination
  by (relation "measure (\<lambda>(ms, st, s, t, w). length (p0 w))") (auto dest: countSpikes_body_p0)

declare countSpikes_loop.simps [simp del]

definition spike_init :: spike_state where
  "spike_init = \<lparr>buffer = [], smooth_signal = 0, counter = 0, checking_cs = False,
                 check_time = - interval_cs, check_grip = False\<rparr>"

definition countSpikes :: "real \<Rightarrow> world \<Rightarrow> (int \<times> world) option" where
  "countSpikes ms w =
     (case countSpikes_loop ms (millis w) spike_init (runningTimeMicros w) w of
        None \<Rightarrow> None
      | Some (s, w') \<Rightarrow> Some (counter s, w'))"

section \<open>reactionTime\<close>

text \<open>
  \<^verbatim>\<open>basic.showIcon(icon, interval)\<close> and \<^verbatim>\<open>music.play(tone, UntilDone)\<close> return after the
  interval, in milliseconds; \<^verbatim>\<open>basic.clearScreen()\<close> and \<^verbatim>\<open>pins.setAudioPin\<close> cost
  no time.
\<close>

datatype Cue = Cue_none | Cue_visual | Cue_audio

definition pause_ms :: "real \<Rightarrow> world \<Rightarrow> world" where
  "pause_ms t w = w\<lparr>now := now w + nat \<lfloor>t * 1000\<rfloor>\<rparr>"

definition showIcon :: "real \<Rightarrow> world \<Rightarrow> world" where
  "showIcon interval w = pause_ms interval w"

definition play_tone :: "real \<Rightarrow> world \<Rightarrow> world" where
  "play_tone t w = pause_ms t w"

abbreviation (input) cue_time :: real where "cue_time \<equiv> 100"
abbreviation (input) ms_rt :: real where "ms_rt \<equiv> 1500"

fun give_cue :: "Cue \<Rightarrow> world \<Rightarrow> world" where
  "give_cue Cue_none w = w"
| "give_cue Cue_visual w = showIcon cue_time w"
| "give_cue Cue_audio w = play_tone cue_time w"

text \<open>
  \<^verbatim>\<open>threshold\<close> is declared \<^verbatim>\<open>threshold?: number\<close> with no default in the body: left
  out it is \<^verbatim>\<open>undefined\<close>, here \<open>None\<close>, and \<^verbatim>\<open>signal > threshold\<close> is then false.
\<close>

definition exceeds :: "real \<Rightarrow> real option \<Rightarrow> bool" where
  "exceeds signal threshold = (case threshold of None \<Rightarrow> False | Some t \<Rightarrow> signal > t)"

text \<open>The loop carries \<open>result\<close> and \<open>once\<close>.\<close>

definition reactionTime_body :: "real option \<Rightarrow> real \<Rightarrow> real \<times> bool \<Rightarrow> world \<Rightarrow> ((real \<times> bool) \<times> world) option" where
  "reactionTime_body threshold startTime ro w =
     (case emg w of
        None \<Rightarrow> None
      | Some (signal, w1) \<Rightarrow>
          (case ro of (result, once) \<Rightarrow>
             if exceeds signal threshold \<and> once then Some ((millis w1 - startTime, False), w1)
             else Some ((result, once), w1)))"

lemma reactionTime_body_p0:
  "reactionTime_body th st ro w = Some (ro', w') \<Longrightarrow> length (p0 w') < length (p0 w)"
  by (auto simp: reactionTime_body_def split: option.splits prod.splits if_splits dest!: emg_p0)

function reactionTime_loop :: "real option \<Rightarrow> real \<Rightarrow> real \<times> bool \<Rightarrow> world \<Rightarrow> ((real \<times> bool) \<times> world) option" where
  "reactionTime_loop threshold startTime ro w =
     (if millis w - startTime < ms_rt then
        (case reactionTime_body threshold startTime ro w of
           None \<Rightarrow> None
         | Some (ro', w') \<Rightarrow> reactionTime_loop threshold startTime ro' w')
      else Some (ro, w))"
  by pat_completeness auto
termination
  by (relation "measure (\<lambda>(th, st, ro, w). length (p0 w))") (auto dest: reactionTime_body_p0)

declare reactionTime_loop.simps [simp del]

text \<open>The result is \<open>None\<close> for \<^verbatim>\<open>undefined\<close>.\<close>

definition reactionTime :: "Cue \<Rightarrow> real option \<Rightarrow> world \<Rightarrow> (real option \<times> world) option" where
  "reactionTime cue threshold w =
     (let w0 = give_cue cue w;
          startTime = millis w0
      in case reactionTime_loop threshold startTime (ms_rt, True) w0 of
           None \<Rightarrow> None
         | Some ((result, once), w') \<Rightarrow>
             Some (if result = ms_rt then None else Some result, w'))"

section \<open>heartBeat\<close>

text \<open>
  \<open>down_sample_fs = 150\<close>, so \<open>period\<close> is 1000000 / 150 microseconds;
  \<open>range = 300\<close>, \<open>buffer_size = 6\<close>.
\<close>

abbreviation (input) period_hb :: real where "period_hb \<equiv> 1000000 / 150"
abbreviation (input) range_hb :: real where "range_hb \<equiv> 300"
abbreviation (input) buffer_size_hb :: nat where "buffer_size_hb \<equiv> 6"

record heart_state =
  buffer_hb :: "real list"
  beat_num :: nat
  unit_hb :: real
  sum_unit :: real
  wait_hb :: int
  last_beat :: real
  prev_beat :: real

text \<open>Lines 354 to 356: the unit of a beat, from the interval since the beat before.\<close>

definition largeBox :: "real \<Rightarrow> real" where
  "largeBox interval = of_int \<lfloor>interval / 200\<rfloor>"

definition smallBox :: "real \<Rightarrow> real" where
  "smallBox interval = of_int \<lfloor>(interval - largeBox interval * 200) / 40\<rfloor>"

definition beat_unit :: "real \<Rightarrow> real" where
  "beat_unit interval = 1 * largeBox interval + 0.2 * smallBox interval"

text \<open>Lines 334 to 345: minimum and maximum of the six buffered samples.\<close>

definition buffer_min_max :: "real list \<Rightarrow> real \<times> real" where
  "buffer_min_max b =
     fold (\<lambda>i (buffer_min, buffer_max).
             (if buffer_min > b ! i then b ! i else buffer_min,
              if buffer_max < b ! i then b ! i else buffer_max))
       [1..<buffer_size_hb] (b ! 0, b ! 0)"

text \<open>Lines 331 to 365: the detection, skipped while \<open>wait\<close> is positive.\<close>

definition detect_beat :: "heart_state \<Rightarrow> world \<Rightarrow> heart_state \<times> world" where
  "detect_beat s w =
     (if wait_hb s \<le> 0 then
        (case buffer_min_max (buffer_hb s) of (buffer_min, buffer_max) \<Rightarrow>
           if buffer_max - buffer_min > range_hb then
             (let w1 = showIcon 150 w;
                  lb = millis w1 - prev_beat s
              in (s\<lparr>last_beat := lb, prev_beat := millis w1, unit_hb := beat_unit lb,
                     sum_unit := sum_unit s + beat_unit lb, beat_num := beat_num s + 1,
                     wait_hb := int buffer_size_hb * 3\<rparr>, w1))
           else (s, w))
      else (s, w))"

definition heartBeat_body :: "heart_state \<Rightarrow> real \<Rightarrow> world \<Rightarrow> (heart_state \<times> real \<times> world) option" where
  "heartBeat_body s sample_time w =
     (case detect_beat s w of (s1, w1) \<Rightarrow>
        (case ecg w1 of
           None \<Rightarrow> None
         | Some (v, w2) \<Rightarrow>
             let s2 = s1\<lparr>buffer_hb := shift_push (buffer_hb s1) v, wait_hb := wait_hb s1 - 1\<rparr>;
                 w3 = samplingRate period_hb sample_time w2
             in Some (s2, runningTimeMicros w3, w3)))"

lemma ecg_p1: "ecg w = Some (v, w') \<Longrightarrow> length (p1 w) = Suc (length (p1 w'))"
  by (auto simp: ecg_def split: list.splits)

lemma detect_beat_p1: "detect_beat s w = (s', w') \<Longrightarrow> p1 w' = p1 w"
  by (auto simp: detect_beat_def showIcon_def pause_ms_def Let_def split: if_splits prod.splits)

lemma heartBeat_body_p1:
  "heartBeat_body s t w = Some (s', t', w') \<Longrightarrow> length (p1 w') < length (p1 w)"
  by (auto simp: heartBeat_body_def Let_def split: option.splits prod.splits
      dest!: ecg_p1 detect_beat_p1)

function heartBeat_loop :: "real \<Rightarrow> real \<Rightarrow> heart_state \<Rightarrow> real \<Rightarrow> world \<Rightarrow> (heart_state \<times> world) option" where
  "heartBeat_loop ms startTime s sample_time w =
     (if millis w - startTime < ms then
        (case heartBeat_body s sample_time w of
           None \<Rightarrow> None
         | Some (s', sample_time', w') \<Rightarrow> heartBeat_loop ms startTime s' sample_time' w')
      else Some (s, w))"
  by pat_completeness auto
termination
  by (relation "measure (\<lambda>(ms, st, s, t, w). length (p1 w))") (auto dest: heartBeat_body_p1)

declare heartBeat_loop.simps [simp del]

text \<open>The \<^verbatim>\<open>for\<close> loop that fills the buffer with \<open>buffer_size\<close> reads before the clock starts.\<close>

fun prefill :: "nat \<Rightarrow> real list \<Rightarrow> world \<Rightarrow> (real list \<times> world) option" where
  "prefill 0 b w = Some (b, w)"
| "prefill (Suc n) b w =
     (case ecg w of None \<Rightarrow> None | Some (v, w') \<Rightarrow> prefill n (b @ [v]) w')"

text \<open>The last line, \<^verbatim>\<open>beat_num > 0 ? 300 / (sum_unit / beat_num) : undefined\<close>.\<close>

definition bpm :: "heart_state \<Rightarrow> jsnum option" where
  "bpm s = (if beat_num s > 0 then Some (js_div 300 (sum_unit s / real (beat_num s))) else None)"

text \<open>The variables of a call when the loop starts: the filled buffer, the clock just read.\<close>

definition heart_init :: "real list \<Rightarrow> world \<Rightarrow> heart_state" where
  "heart_init b w0 =
     \<lparr>buffer_hb = b, beat_num = 0, unit_hb = 0, sum_unit = 0, wait_hb = 0,
      last_beat = 0, prev_beat = millis w0\<rparr>"

definition heartBeat_run :: "real \<Rightarrow> world \<Rightarrow> (heart_state \<times> world) option" where
  "heartBeat_run ms w =
     (case prefill buffer_size_hb [] w of
        None \<Rightarrow> None
      | Some (b, w0) \<Rightarrow>
          heartBeat_loop ms (millis w0) (heart_init b w0) (runningTimeMicros w0) w0)"

definition heartBeat :: "real \<Rightarrow> world \<Rightarrow> (jsnum option \<times> world) option" where
  "heartBeat ms w =
     (case heartBeat_run ms w of
        None \<Rightarrow> None
      | Some (s, w') \<Rightarrow> Some (bpm s, w'))"

section \<open>gazeV and gazeH\<close>

datatype LookingAt = At_none | At_up | At_left | At_right | At_down | At_blink

text \<open>
  The variables declared in the namespace, outside the two functions: they are an
  argument and a result of every call.
\<close>

record gaze_state =
  currently_up :: bool
  currently_down :: bool
  center_UD :: bool
  cooldown_counter :: nat
  blink_buffer :: "real list"
  updown_buffer :: "real list"
  currently_left :: bool
  currently_right :: bool
  center_LR :: bool
  leftright_buffer :: "real list"

definition gaze_init :: gaze_state where
  "gaze_init = \<lparr>currently_up = False, currently_down = False, center_UD = False,
                cooldown_counter = 0, blink_buffer = [], updown_buffer = [],
                currently_left = False, currently_right = False, center_LR = False,
                leftright_buffer = []\<rparr>"

text \<open>
  \<open>time = 500\<close>, \<open>down_sample_fs = 50\<close>, so \<open>period\<close> is 20000 microseconds;
  \<open>baseline = 450\<close>, \<open>buffer_size = 10\<close>, \<open>wait_size = floor (50 / 3)\<close>,
  \<open>cooldown_period = wait_size + buffer_size\<close>.
\<close>

abbreviation (input) time_gz :: real where "time_gz \<equiv> 500"
abbreviation (input) period_gz :: real where "period_gz \<equiv> 1000000 / 50"
abbreviation (input) baseline :: real where "baseline \<equiv> 450"
abbreviation (input) buffer_size_gz :: nat where "buffer_size_gz \<equiv> 10"
abbreviation (input) wait_size :: nat where "wait_size \<equiv> 16"
abbreviation (input) cooldown_period :: nat where "cooldown_period \<equiv> wait_size + buffer_size_gz"

text \<open>\<^verbatim>\<open>buffer.reduce((a, b) => a + b, 0) / buffer_size\<close>.\<close>

definition avgBuffer :: "real list \<Rightarrow> real" where
  "avgBuffer b = fold (\<lambda>b a. a + b) b 0 / real buffer_size_gz"

text \<open>\<^verbatim>\<open>slope < -75\<close> on a result of \<open>js_div\<close>: false on \<open>NaN\<close>.\<close>

fun js_less :: "jsnum \<Rightarrow> real \<Rightarrow> bool" where
  "js_less (Num x) r = (x < r)"
| "js_less NegInfinity r = True"
| "js_less PosInfinity r = False"
| "js_less NaN r = False"

text \<open>
  Lines 450 to 461: the sample enters the blink buffer; once that holds \<open>wait_size\<close>
  samples, its oldest one moves on to the updown buffer. In the else branch the blink
  buffer is not empty, so \<^verbatim>\<open>blink_buffer.shift()\<close> is its head.
\<close>

definition stagger :: "gaze_state \<Rightarrow> real \<Rightarrow> gaze_state" where
  "stagger g signal =
     (if length (blink_buffer g) < wait_size then g\<lparr>blink_buffer := blink_buffer g @ [signal]\<rparr>
      else
        (let moved = hd (blink_buffer g);
             ud = (if length (updown_buffer g) < buffer_size_gz then updown_buffer g @ [moved]
                   else tl (updown_buffer g) @ [moved])
         in g\<lparr>updown_buffer := ud, blink_buffer := tl (blink_buffer g) @ [signal]\<rparr>))"

text \<open>Lines 477 to 499: up, down or neutral, once the cooldown is over.\<close>

definition classifyV :: "real \<Rightarrow> gaze_state \<times> LookingAt \<Rightarrow> gaze_state \<times> LookingAt" where
  "classifyV avg gr =
     (case gr of (g, result) \<Rightarrow>
        if avg > baseline * 1.40 then
          (if currently_down g then (g\<lparr>center_UD := True\<rparr>, result)
           else (g\<lparr>center_UD := False, currently_up := True\<rparr>, At_up))
        else if avg < baseline * 0.60 then
          (if currently_up g then (g\<lparr>center_UD := True\<rparr>, result)
           else (g\<lparr>center_UD := False, currently_down := True\<rparr>, At_down))
        else
          (if center_UD g then (g\<lparr>currently_up := False, currently_down := False\<rparr>, result)
           else (g, result)))"

text \<open>Lines 463 to 503.\<close>

definition analyseV :: "gaze_state \<times> LookingAt \<Rightarrow> gaze_state \<times> LookingAt" where
  "analyseV gr =
     (case gr of (g, result) \<Rightarrow>
        if length (updown_buffer g) = buffer_size_gz then
          (let slope = calculateSlope (take buffer_size_gz (blink_buffer g));
               avg = avgBuffer (updown_buffer g);
               gr1 = (if js_less slope (- 75) then (g\<lparr>cooldown_counter := 0\<rparr>, At_blink)
                      else (g, result))
           in if cooldown_counter (fst gr1) \<ge> cooldown_period then classifyV avg gr1
              else ((fst gr1)\<lparr>cooldown_counter := cooldown_counter (fst gr1) + 1\<rparr>, snd gr1))
        else (g, result))"

definition gazeV_body :: "gaze_state \<times> LookingAt \<Rightarrow> real \<Rightarrow> world \<Rightarrow> ((gaze_state \<times> LookingAt) \<times> real \<times> world) option" where
  "gazeV_body gr sample_time w =
     (case eog w of
        None \<Rightarrow> None
      | Some (signal, w1) \<Rightarrow>
          let gr1 = analyseV (stagger (fst gr) signal, snd gr);
              w2 = samplingRate period_gz sample_time w1
          in Some (gr1, runningTimeMicros w2, w2))"

lemma eog_p0: "eog w = Some (v, w') \<Longrightarrow> length (p0 w) = Suc (length (p0 w'))"
  by (auto simp: eog_def split: list.splits)

lemma gazeV_body_p0:
  "gazeV_body gr t w = Some (gr', t', w') \<Longrightarrow> length (p0 w') < length (p0 w)"
  by (auto simp: gazeV_body_def Let_def split: option.splits dest!: eog_p0)

function gazeV_loop :: "real \<Rightarrow> gaze_state \<times> LookingAt \<Rightarrow> real \<Rightarrow> world \<Rightarrow> ((gaze_state \<times> LookingAt) \<times> world) option" where
  "gazeV_loop start_time gr sample_time w =
     (if millis w - start_time < time_gz then
        (case gazeV_body gr sample_time w of
           None \<Rightarrow> None
         | Some (gr', sample_time', w') \<Rightarrow> gazeV_loop start_time gr' sample_time' w')
      else Some (gr, w))"
  by pat_completeness auto
termination
  by (relation "measure (\<lambda>(st, gr, t, w). length (p0 w))") (auto dest: gazeV_body_p0)

declare gazeV_loop.simps [simp del]

text \<open>A call takes the namespace variables and gives them back with its result.\<close>

definition gazeV :: "gaze_state \<Rightarrow> world \<Rightarrow> (LookingAt \<times> gaze_state \<times> world) option" where
  "gazeV g w =
     (case gazeV_loop (millis w) (g, At_none) (runningTimeMicros w) w of
        None \<Rightarrow> None
      | Some ((g', result), w') \<Rightarrow> Some (result, g', w'))"

text \<open>Lines 568 to 594 of \<^verbatim>\<open>gazeH\<close>: left, right or neutral.\<close>

definition classifyH :: "real \<Rightarrow> gaze_state \<times> LookingAt \<Rightarrow> gaze_state \<times> LookingAt" where
  "classifyH avg gr =
     (case gr of (g, result) \<Rightarrow>
        if avg > baseline * 1.25 then
          (if currently_right g then (g\<lparr>center_LR := True\<rparr>, result)
           else (g\<lparr>center_LR := False, currently_left := True\<rparr>, At_left))
        else if avg < baseline * 0.75 then
          (if currently_left g then (g\<lparr>center_LR := True\<rparr>, result)
           else (g\<lparr>center_LR := False, currently_right := True\<rparr>, At_right))
        else
          (if center_LR g then (g\<lparr>currently_left := False, currently_right := False\<rparr>, result)
           else (g, result)))"

definition gazeH_body :: "gaze_state \<times> LookingAt \<Rightarrow> real \<Rightarrow> world \<Rightarrow> ((gaze_state \<times> LookingAt) \<times> real \<times> world) option" where
  "gazeH_body gr sample_time w =
     (case eog w of
        None \<Rightarrow> None
      | Some (signal, w1) \<Rightarrow>
          let g = fst gr;
              b1 = fill buffer_size_gz (leftright_buffer g) signal;
              gr1 = (if length b1 = buffer_size_gz then
                       (let b2 = shift_push b1 signal
                        in classifyH (avgBuffer b2) (g\<lparr>leftright_buffer := b2\<rparr>, snd gr))
                     else (g\<lparr>leftright_buffer := b1\<rparr>, snd gr));
              w2 = samplingRate period_gz sample_time w1
          in Some (gr1, runningTimeMicros w2, w2))"

lemma gazeH_body_p0:
  "gazeH_body gr t w = Some (gr', t', w') \<Longrightarrow> length (p0 w') < length (p0 w)"
  by (auto simp: gazeH_body_def Let_def split: option.splits dest!: eog_p0)

function gazeH_loop :: "real \<Rightarrow> gaze_state \<times> LookingAt \<Rightarrow> real \<Rightarrow> world \<Rightarrow> ((gaze_state \<times> LookingAt) \<times> world) option" where
  "gazeH_loop start_time gr sample_time w =
     (if millis w - start_time < time_gz then
        (case gazeH_body gr sample_time w of
           None \<Rightarrow> None
         | Some (gr', sample_time', w') \<Rightarrow> gazeH_loop start_time gr' sample_time' w')
      else Some (gr, w))"
  by pat_completeness auto
termination
  by (relation "measure (\<lambda>(st, gr, t, w). length (p0 w))") (auto dest: gazeH_body_p0)

declare gazeH_loop.simps [simp del]

definition gazeH :: "gaze_state \<Rightarrow> world \<Rightarrow> (LookingAt \<times> gaze_state \<times> world) option" where
  "gazeH g w =
     (case gazeH_loop (millis w) (g, At_none) (runningTimeMicros w) w of
        None \<Rightarrow> None
      | Some ((g', result), w') \<Rightarrow> Some (result, g', w'))"

section \<open>blinks\<close>

text \<open>
  \<open>down_sample_fs = 50\<close>, \<open>buffer_size = 2\<close>, \<open>threshold = 40\<close>,
  \<open>blink_time = 300\<close>.
\<close>

abbreviation (input) buffer_size_bl :: nat where "buffer_size_bl \<equiv> 2"
abbreviation (input) threshold_bl :: real where "threshold_bl \<equiv> 40"
abbreviation (input) blink_time :: real where "blink_time \<equiv> 300"

record blink_state =
  buffer_bl :: "real list"
  blink_check_timer :: real
  start_val :: real
  currently_checking :: bool
  exit_bl :: bool

definition blink_init :: blink_state where
  "blink_init = \<lparr>buffer_bl = [], blink_check_timer = 0, start_val = 0,
                 currently_checking = False, exit_bl = False\<rparr>"

text \<open>Lines 662 to 678, on the full buffer.\<close>

definition blink_check :: "blink_state \<Rightarrow> world \<Rightarrow> blink_state" where
  "blink_check s w =
     (let b = buffer_bl s
      in if \<bar>b ! 0 - b ! 1\<bar> > threshold_bl then
           (let s1 = (if \<not> currently_checking s \<and> b ! 1 > b ! 0
                      then s\<lparr>blink_check_timer := millis w, start_val := b ! 0,
                             currently_checking := True\<rparr>
                      else s)
            in if millis w - blink_check_timer s1 < blink_time then
                 (if b ! 0 < start_val s1 then s1\<lparr>currently_checking := False, exit_bl := True\<rparr>
                  else s1)
               else s1\<lparr>currently_checking := False\<rparr>)
         else s)"

definition blinks_body :: "blink_state \<Rightarrow> real \<Rightarrow> world \<Rightarrow> (blink_state \<times> real \<times> world) option" where
  "blinks_body s sample_time w =
     (case eog w of
        None \<Rightarrow> None
      | Some (signal, w1) \<Rightarrow>
          let b1 = fill buffer_size_bl (buffer_bl s) signal;
              s1 = (if length b1 = buffer_size_bl then
                      blink_check (s\<lparr>buffer_bl := shift_push b1 signal\<rparr>) w1
                    else s\<lparr>buffer_bl := b1\<rparr>);
              w2 = samplingRate period_gz sample_time w1
          in Some (s1, runningTimeMicros w2, w2))"

lemma blinks_body_p0:
  "blinks_body s t w = Some (s', t', w') \<Longrightarrow> length (p0 w') < length (p0 w)"
  by (auto simp: blinks_body_def Let_def split: option.splits dest!: eog_p0)

function blinks_loop :: "real \<Rightarrow> real \<Rightarrow> blink_state \<Rightarrow> real \<Rightarrow> world \<Rightarrow> (blink_state \<times> world) option" where
  "blinks_loop ms start_time s sample_time w =
     (if millis w - start_time < ms \<and> \<not> exit_bl s then
        (case blinks_body s sample_time w of
           None \<Rightarrow> None
         | Some (s', sample_time', w') \<Rightarrow> blinks_loop ms start_time s' sample_time' w')
      else Some (s, w))"
  by pat_completeness auto
termination
  by (relation "measure (\<lambda>(ms, st, s, t, w). length (p0 w))") (auto dest: blinks_body_p0)

declare blinks_loop.simps [simp del]

definition blinks :: "real \<Rightarrow> world \<Rightarrow> (bool \<times> world) option" where
  "blinks ms w =
     (case blinks_loop ms (millis w) blink_init (runningTimeMicros w) w of
        None \<Rightarrow> None
      | Some (s, w') \<Rightarrow> Some (exit_bl s, w'))"

section \<open>Properties of calculateSlope\<close>

text \<open>Whole numbers of magnitude up to \<open>2 ^ 53\<close> are doubles.\<close>

lemma exp_up_nonneg: "0 \<le> exp_up x"
  by (induction x rule: exp_up.induct) (subst exp_up.simps, simp)

lemma exp_up_bounds:
  "1 \<le> x \<Longrightarrow> 2 ^ nat (exp_up x) \<le> x \<and> x < 2 ^ nat (exp_up x + 1)"
proof (induction x rule: exp_up.induct)
  case (1 x)
  show ?case
  proof (cases "2 \<le> x")
    case True
    then have e: "exp_up x = exp_up (x / 2) + 1" by (subst exp_up.simps) simp
    from True have "1 \<le> x / 2" by simp
    from "1.IH" [OF True this]
    have "2 ^ nat (exp_up (x / 2)) \<le> x / 2" "x / 2 < 2 ^ nat (exp_up (x / 2) + 1)" by simp_all
    moreover have "nat (exp_up (x / 2) + 1) = Suc (nat (exp_up (x / 2)))"
      using exp_up_nonneg [of "x / 2"] by simp
    ultimately show ?thesis unfolding e
      using exp_up_nonneg [of "x / 2"] by (simp add: nat_add_distrib)
  next
    case False
    then have "exp_up x = 0" by (subst exp_up.simps) simp
    with False "1.prems" show ?thesis by simp
  qed
qed

lemma round_even_of_int: "round_even (of_int m) = m"
  by (simp add: round_even_def)

lemma dbl_of_int:
  assumes "\<bar>k\<bar> \<le> 2 ^ 53"
  shows "dbl (of_int k) = of_int k"
proof (cases "k = 0")
  case True
  then show ?thesis by (simp add: dbl_def round_even_def)
next
  case False
  let ?x = "of_int k :: real"
  let ?e = "exp_up \<bar>?x\<bar>"
  from False have "1 \<le> \<bar>k\<bar>" by simp
  then have "(1::real) \<le> of_int \<bar>k\<bar>" by (simp only: of_int_1_le_iff)
  then have one: "1 \<le> \<bar>?x\<bar>" by simp
  then have b: "binade ?x = ?e" by (simp add: binade_def)
  from exp_up_bounds [OF one] have lo: "2 ^ nat ?e \<le> \<bar>?x\<bar>" by simp
  from assms have "(of_int \<bar>k\<bar> :: real) \<le> of_int (2 ^ 53)" by (simp only: of_int_le_iff)
  then have hi: "\<bar>?x\<bar> \<le> 2 ^ 53" by simp
  from lo hi have p: "(2::real) ^ nat ?e \<le> 2 ^ 53" by (rule order_trans)
  have e53: "nat ?e \<le> 53"
    by (rule power_le_imp_le_exp [where a = "2::real"], simp, rule p)
  have "\<exists>m. ?x / pow2 (?e - 52) = of_int m"
  proof (cases "?e \<le> 52")
    case True
    then have "pow2 (?e - 52) = 1 / 2 ^ nat (52 - ?e)"
      by (cases "?e = 52") (simp_all add: pow2_def)
    then have "?x / pow2 (?e - 52) = of_int (k * 2 ^ nat (52 - ?e))" by simp
    then show ?thesis ..
  next
    case False
    with e53 have e: "?e = 53" by simp
    with lo hi have "\<bar>?x\<bar> = 2 ^ 53" by simp
    then have "(of_int \<bar>k\<bar> :: real) = of_int (2 ^ 53)" by simp
    then have "\<bar>k\<bar> = 2 ^ 53" by (simp only: of_int_eq_iff)
    then have "k = 2 ^ 53 \<or> k = - (2 ^ 53)" by linarith
    then have "?x / 2 = of_int (k div 2)" by auto
    with e show ?thesis by (auto simp: pow2_def)
  qed
  then obtain m where m: "?x / pow2 (?e - 52) = of_int m" ..
  have u: "pow2 (?e - 52) \<noteq> 0" by (simp add: pow2_def)
  have "dbl ?x = of_int (round_even (?x / pow2 (?e - 52))) * pow2 (?e - 52)"
    unfolding dbl_def Let_def b ..
  also have "\<dots> = ?x / pow2 (?e - 52) * pow2 (?e - 52)"
    unfolding m round_even_of_int ..
  also from u have "\<dots> = ?x" by simp
  finally show ?thesis .
qed

lemma dbl_exact:
  assumes "v \<in> \<int>" and "\<bar>v\<bar> \<le> 2 ^ 53"
  shows "dbl v = v"
proof -
  from assms(1) obtain k where k: "v = of_int k" by (rule Ints_cases)
  with assms(2) have "(of_int \<bar>k\<bar> :: real) \<le> of_int (2 ^ 53)" by simp
  then have "\<bar>k\<bar> \<le> 2 ^ 53" by (simp only: of_int_le_iff)
  then show ?thesis unfolding k by (rule dbl_of_int)
qed

text \<open>The sums of the loop, in exact arithmetic and under a rounding that leaves them alone.\<close>

lemma slope_sums:
  "fold (\<lambda>x (xSum, ySum, xySum, xSquaredSum).
           (xSum + real x, ySum + data ! x, xySum + real x * data ! x,
            xSquaredSum + real x * real x))
     [0..<n] (0, 0, 0, 0)
   = (\<Sum>x<n. real x, \<Sum>x<n. data ! x, \<Sum>x<n. real x * data ! x, \<Sum>x<n. real x * real x)"
  by (induction n) simp_all

lemma slope_sums_with:
  assumes "\<And>k. k < n \<Longrightarrow> rnd (\<Sum>x<Suc k. real x) = (\<Sum>x<Suc k. real x)"
    and "\<And>k. k < n \<Longrightarrow> rnd (\<Sum>x<Suc k. data ! x) = (\<Sum>x<Suc k. data ! x)"
    and "\<And>k. k < n \<Longrightarrow> rnd (real k * data ! k) = real k * data ! k"
    and "\<And>k. k < n \<Longrightarrow> rnd (\<Sum>x<Suc k. real x * data ! x) = (\<Sum>x<Suc k. real x * data ! x)"
    and "\<And>k. k < n \<Longrightarrow> rnd (real k * real k) = real k * real k"
    and "\<And>k. k < n \<Longrightarrow> rnd (\<Sum>x<Suc k. real x * real x) = (\<Sum>x<Suc k. real x * real x)"
  shows "fold (\<lambda>x (xSum, ySum, xySum, xSquaredSum).
                    (rnd (xSum + real x), rnd (ySum + data ! x),
                     rnd (xySum + rnd (real x * data ! x)),
                     rnd (xSquaredSum + rnd (real x * real x))))
              [0..<n] (0, 0, 0, 0)
   = (\<Sum>x<n. real x, \<Sum>x<n. data ! x, \<Sum>x<n. real x * data ! x, \<Sum>x<n. real x * real x)"
  using assms
proof (induction n)
  case 0
  show ?case by simp
next
  case (Suc n)
  have IH: "fold (\<lambda>x (xSum, ySum, xySum, xSquaredSum).
                    (rnd (xSum + real x), rnd (ySum + data ! x),
                     rnd (xySum + rnd (real x * data ! x)),
                     rnd (xSquaredSum + rnd (real x * real x))))
              [0..<n] (0, 0, 0, 0)
   = (\<Sum>x<n. real x, \<Sum>x<n. data ! x, \<Sum>x<n. real x * data ! x, \<Sum>x<n. real x * real x)"
    by (rule Suc.IH) (rule Suc.prems, rule less_SucI, assumption)+
  from Suc.prems [of n] show ?case by (simp add: IH)
qed

lemma sum_abs_bound:
  fixes g :: "nat \<Rightarrow> real"
  assumes "\<And>x. x < k \<Longrightarrow> \<bar>g x\<bar> \<le> c"
  shows "\<bar>\<Sum>x<k. g x\<bar> \<le> real k * c"
proof -
  have "\<bar>\<Sum>x<k. g x\<bar> \<le> (\<Sum>x<k. \<bar>g x\<bar>)" by (rule sum_abs)
  also have "\<dots> \<le> (\<Sum>x<k. c)" by (rule sum_mono) (simp add: assms)
  also have "\<dots> = real k * c" by simp
  finally show ?thesis .
qed


lemma sum_index: "(\<Sum>x<n. real x) = real n * (real n - 1) / 2"
  by (induction n) (simp_all add: field_simps)

lemma sum_index_sq: "(\<Sum>x<n. real x * real x) = (real n - 1) * real n * (2 * real n - 1) / 6"
  by (induction n) (simp_all add: field_simps)

lemma slope_denominator:
  "real n * (\<Sum>x<n. real x * real x) - (\<Sum>x<n. real x) * (\<Sum>x<n. real x)
   = real n * real n * (real n - 1) * (real n + 1) / 12"
  by (simp add: sum_index sum_index_sq field_simps power2_eq_square)

lemma slope_denominator_pos:
  assumes "2 \<le> n"
  shows "0 < real n * (\<Sum>x<n. real x * real x) - (\<Sum>x<n. real x) * (\<Sum>x<n. real x)"
proof -
  from assms have "0 < real n" "0 < real n - 1" by simp_all
  then show ?thesis unfolding slope_denominator by simp
qed

lemma linear_sums:
  "(\<Sum>x<n. a * real x + b) = a * (\<Sum>x<n. real x) + b * real n"
  "(\<Sum>x<n. real x * (a * real x + b))
     = a * (\<Sum>x<n. real x * real x) + b * (\<Sum>x<n. real x)"
  by (simp_all add: sum.distrib sum_distrib_left algebra_simps)

lemma calculateSlope_exact_line:
  assumes "2 \<le> n"
  shows "calculateSlope_with (\<lambda>v. v) (map (\<lambda>x. a * real x + b) [0..<n]) = Num a"
proof -
  let ?S1 = "\<Sum>x<n. real x" and ?S2 = "\<Sum>x<n. real x * real x"
  let ?D = "real n * ?S2 - ?S1 * ?S1"
  let ?data = "map (\<lambda>x. a * real x + b) [0..<n]"
  have D: "?D \<noteq> 0" using slope_denominator_pos [OF assms] by simp
  have y: "(\<Sum>x<n. ?data ! x) = a * ?S1 + b * real n"
    using linear_sums(1) [where a=a and b=b and n=n] by simp
  have xy: "(\<Sum>x<n. real x * ?data ! x) = a * ?S2 + b * ?S1"
    using linear_sums(2) [where a=a and b=b and n=n] by simp
  have num: "real n * (a * ?S2 + b * ?S1) - ?S1 * (a * ?S1 + b * real n) = a * ?D"
    by (simp add: algebra_simps)
  have "calculateSlope_with (\<lambda>v. v) ?data = (case js_div (a * ?D) ?D of Num q \<Rightarrow> Num q | r \<Rightarrow> r)"
    unfolding calculateSlope_with_def Let_def slope_sums
    by (simp only: length_map length_upt diff_zero prod.case y xy num)
  with D show ?thesis by (simp add: js_div_def)
qed

lemma calculateSlope_with_int_data:
  fixes B Y :: real
  assumes rnd: "\<And>v. v \<in> \<int> \<Longrightarrow> \<bar>v\<bar> \<le> B \<Longrightarrow> rnd v = v"
    and n: "2 \<le> length data"
    and d_int: "\<And>x. x < length data \<Longrightarrow> data ! x \<in> \<int>"
    and d_abs: "\<And>x. x < length data \<Longrightarrow> \<bar>data ! x\<bar> \<le> Y"
    and bound: "real (length data) ^ 3 * (Y + real (length data)) \<le> B"
  shows "calculateSlope_with rnd data =
     (case js_div
        (rnd (real (length data) * (\<Sum>x<length data. real x * data ! x)
               - (\<Sum>x<length data. real x) * (\<Sum>x<length data. data ! x)))
        (real (length data) * (\<Sum>x<length data. real x * real x)
               - (\<Sum>x<length data. real x) * (\<Sum>x<length data. real x))
      of Num q \<Rightarrow> Num (rnd q) | r \<Rightarrow> r)"
proof -
  define n where "n = length data"
  define N where "N = real n"
  define S1 where "S1 = (\<lambda>k. \<Sum>x<k. real x)"
  define Sy where "Sy = (\<lambda>k. \<Sum>x<k. data ! x)"
  define Sxy where "Sxy = (\<lambda>k. \<Sum>x<k. real x * data ! x)"
  define S2 where "S2 = (\<lambda>k. \<Sum>x<k. real x * real x)"
  from n have n2: "2 \<le> n" by (simp add: n_def)
  from n2 have N1: "1 \<le> N" and N0: "0 \<le> N" by (simp_all add: N_def)
  have f_int: "data ! x \<in> \<int>" if "x < n" for x using that d_int by (simp add: n_def)
  have f_abs: "\<bar>data ! x\<bar> \<le> Y" if "x < n" for x using that d_abs by (simp add: n_def)
  have Y0: "0 \<le> Y" using f_abs [of 0] n2 by simp
  have "N ^ 3 * Y + N ^ 4 = N ^ 3 * (Y + N)" by (simp add: algebra_simps power4_eq_xxxx power3_eq_cube)
  also from bound have "\<dots> \<le> B" by (simp add: N_def n_def)
  finally have sumB: "N ^ 3 * Y + N ^ 4 \<le> B" .
  have N3Y0: "0 \<le> N ^ 3 * Y" using N0 Y0 by simp
  have N40: "0 \<le> N ^ 4" using N0 by simp
  from sumB N3Y0 N40 have B4: "N ^ 4 \<le> B" and B3: "N ^ 3 * Y \<le> B" by linarith+
  have p13: "N \<le> N ^ 3" using power_increasing [OF _ N1, of 1 3] by simp
  have p23: "N ^ 2 \<le> N ^ 3" using power_increasing [OF _ N1, of 2 3] by simp
  have p24: "N ^ 2 \<le> N ^ 4" using power_increasing [OF _ N1, of 2 4] by simp
  have p34: "N ^ 3 \<le> N ^ 4" using power_increasing [OF _ N1, of 3 4] by simp
  have x_abs: "\<bar>real x\<bar> \<le> N" if "x < n" for x using that by (simp add: N_def)
  have xf_abs: "\<bar>real x * data ! x\<bar> \<le> N * Y" if "x < n" for x
  proof -
    have "\<bar>real x * data ! x\<bar> = \<bar>real x\<bar> * \<bar>data ! x\<bar>" by (simp add: abs_mult)
    also have "\<dots> \<le> N * Y" using x_abs [OF that] f_abs [OF that] by (intro mult_mono) simp_all
    finally show ?thesis .
  qed
  have xx_abs: "\<bar>real x * real x\<bar> \<le> N ^ 2" if "x < n" for x
  proof -
    have "\<bar>real x * real x\<bar> = \<bar>real x\<bar> * \<bar>real x\<bar>" by (simp add: abs_mult)
    also have "\<dots> \<le> N * N" using x_abs [OF that] by (intro mult_mono) simp_all
    finally show ?thesis by (simp add: power2_eq_square)
  qed
  have kN: "real k \<le> N" if "k \<le> n" for k using that by (simp add: N_def)
  have S1_abs: "\<bar>S1 k\<bar> \<le> N ^ 2" if "k \<le> n" for k
  proof -
    have "\<bar>S1 k\<bar> \<le> real k * N" unfolding S1_def
      by (rule sum_abs_bound) (use that in \<open>simp add: N_def\<close>)
    also have "\<dots> \<le> N * N" using kN [OF that] N0 by (intro mult_right_mono)
    finally show ?thesis by (simp add: power2_eq_square)
  qed
  have Sy_abs: "\<bar>Sy k\<bar> \<le> N * Y" if "k \<le> n" for k
  proof -
    have "\<bar>Sy k\<bar> \<le> real k * Y" unfolding Sy_def
      by (rule sum_abs_bound) (use that f_abs in simp)
    also have "\<dots> \<le> N * Y" using kN [OF that] Y0 by (intro mult_right_mono)
    finally show ?thesis .
  qed
  have Sxy_abs: "\<bar>Sxy k\<bar> \<le> N ^ 2 * Y" if "k \<le> n" for k
  proof -
    have "\<bar>Sxy k\<bar> \<le> real k * (N * Y)" unfolding Sxy_def
      by (rule sum_abs_bound) (use that xf_abs in simp)
    also have "\<dots> \<le> N * (N * Y)" using kN [OF that] N0 Y0 by (intro mult_right_mono) simp_all
    finally show ?thesis by (simp add: power2_eq_square)
  qed
  have S2_abs: "\<bar>S2 k\<bar> \<le> N ^ 3" if "k \<le> n" for k
  proof -
    have "\<bar>S2 k\<bar> \<le> real k * N ^ 2" unfolding S2_def
      by (rule sum_abs_bound) (use that xx_abs in simp)
    also have "\<dots> \<le> N * N ^ 2" using kN [OF that] N0 by (intro mult_right_mono) simp_all
    finally show ?thesis by (simp add: power3_eq_cube power2_eq_square)
  qed
  have S1_int: "S1 k \<in> \<int>" for k unfolding S1_def by (intro Ints_sum Ints_of_nat)
  have S2_int: "S2 k \<in> \<int>" for k unfolding S2_def by (intro Ints_sum Ints_mult Ints_of_nat)
  have Sy_int: "Sy k \<in> \<int>" if "k \<le> n" for k unfolding Sy_def
    by (rule Ints_sum) (use that f_int in simp)
  have Sxy_int: "Sxy k \<in> \<int>" if "k \<le> n" for k unfolding Sxy_def
    by (rule Ints_sum, rule Ints_mult, rule Ints_of_nat) (use that f_int in simp)
  have NY: "N * Y \<le> B"
  proof -
    have "N * Y \<le> N ^ 3 * Y" using p13 Y0 by (rule mult_right_mono)
    with B3 show ?thesis by simp
  qed
  have N2Y: "N ^ 2 * Y \<le> B"
  proof -
    have "N ^ 2 * Y \<le> N ^ 3 * Y" using p23 Y0 by (rule mult_right_mono)
    with B3 show ?thesis by simp
  qed
  have N2: "N ^ 2 \<le> B" using p24 B4 by simp
  have N3: "N ^ 3 \<le> B" using p34 B4 by simp
  have fold: "fold (\<lambda>x (xSum, ySum, xySum, xSquaredSum).
                    (rnd (xSum + real x), rnd (ySum + data ! x),
                     rnd (xySum + rnd (real x * data ! x)),
                     rnd (xSquaredSum + rnd (real x * real x))))
              [0..<n] (0, 0, 0, 0) = (S1 n, Sy n, Sxy n, S2 n)"
    unfolding S1_def Sy_def Sxy_def S2_def
  proof (rule slope_sums_with)
    fix k assume k: "k < n"
    then have k': "Suc k \<le> n" by simp
    show "rnd (\<Sum>x<Suc k. real x) = (\<Sum>x<Suc k. real x)"
      using rnd [OF S1_int [of "Suc k"]] S1_abs [OF k'] N2 by (simp add: S1_def)
    show "rnd (\<Sum>x<Suc k. data ! x) = (\<Sum>x<Suc k. data ! x)"
      using rnd [OF Sy_int [OF k']] Sy_abs [OF k'] NY by (simp add: Sy_def)
    show "rnd (real k * data ! k) = real k * data ! k"
    proof (rule rnd)
      show "real k * data ! k \<in> \<int>" using f_int [OF k] by simp
      show "\<bar>real k * data ! k\<bar> \<le> B" using xf_abs [OF k] NY by simp
    qed
    show "rnd (\<Sum>x<Suc k. real x * data ! x) = (\<Sum>x<Suc k. real x * data ! x)"
      using rnd [OF Sxy_int [OF k']] Sxy_abs [OF k'] N2Y by (simp add: Sxy_def)
    show "rnd (real k * real k) = real k * real k"
    proof (rule rnd)
      show "real k * real k \<in> \<int>" by simp
      show "\<bar>real k * real k\<bar> \<le> B" using xx_abs [OF k] N2 by simp
    qed
    show "rnd (\<Sum>x<Suc k. real x * real x) = (\<Sum>x<Suc k. real x * real x)"
      using rnd [OF S2_int [of "Suc k"]] S2_abs [OF k'] N3 by (simp add: S2_def)
  qed
  define D where "D = N * S2 n - S1 n * S1 n"
  have Dpos: "0 < D" unfolding D_def N_def S1_def S2_def by (rule slope_denominator_pos [OF n2])
  have S2n: "\<bar>N * S2 n\<bar> \<le> N ^ 4"
  proof -
    have "\<bar>N * S2 n\<bar> = N * \<bar>S2 n\<bar>" using N0 by (simp add: abs_mult)
    also have "\<dots> \<le> N * N ^ 3" using S2_abs [of n] N0 by (intro mult_left_mono) simp_all
    finally show ?thesis by (simp add: power4_eq_xxxx power3_eq_cube)
  qed
  have S11: "\<bar>S1 n * S1 n\<bar> \<le> N ^ 4"
  proof -
    have "\<bar>S1 n * S1 n\<bar> = \<bar>S1 n\<bar> * \<bar>S1 n\<bar>" by (simp add: abs_mult)
    also have "\<dots> \<le> N ^ 2 * N ^ 2" using S1_abs [of n] by (intro mult_mono) simp_all
    finally show ?thesis by (simp add: power4_eq_xxxx power2_eq_square)
  qed
  have D4: "D \<le> N ^ 4"
  proof -
    have "D \<le> N * S2 n" unfolding D_def by simp
    also have "\<dots> \<le> \<bar>N * S2 n\<bar>" by simp
    finally show ?thesis using S2n by simp
  qed
  have nSxy: "\<bar>N * Sxy n\<bar> \<le> N ^ 3 * Y"
  proof -
    have "\<bar>N * Sxy n\<bar> = N * \<bar>Sxy n\<bar>" using N0 by (simp add: abs_mult)
    also have "\<dots> \<le> N * (N ^ 2 * Y)" using Sxy_abs [of n] N0 by (intro mult_left_mono) simp_all
    finally show ?thesis by (simp add: power3_eq_cube power2_eq_square)
  qed
  have S1Sy: "\<bar>S1 n * Sy n\<bar> \<le> N ^ 3 * Y"
  proof -
    have "\<bar>S1 n * Sy n\<bar> = \<bar>S1 n\<bar> * \<bar>Sy n\<bar>" by (simp add: abs_mult)
    also have "\<dots> \<le> N ^ 2 * (N * Y)" using S1_abs [of n] Sy_abs [of n] N0 Y0
      by (intro mult_mono) simp_all
    finally show ?thesis by (simp add: power3_eq_cube power2_eq_square)
  qed
  have N_int: "N \<in> \<int>" by (simp add: N_def)
  have r1: "rnd (N * Sxy n) = N * Sxy n"
    using nSxy B3 by (intro rnd Ints_mult N_int Sxy_int) simp_all
  have r2: "rnd (S1 n * Sy n) = S1 n * Sy n"
    using S1Sy B3 by (intro rnd Ints_mult S1_int Sy_int) simp_all
  have r4: "rnd (N * S2 n) = N * S2 n"
    using S2n B4 by (intro rnd Ints_mult N_int S2_int) simp_all
  have r5: "rnd (S1 n * S1 n) = S1 n * S1 n"
    using S11 B4 by (intro rnd Ints_mult S1_int) simp_all
  have r6: "rnd D = D"
    using D4 Dpos B4 unfolding D_def by (intro rnd Ints_mult Ints_diff N_int S1_int S2_int) simp_all
  have "calculateSlope_with rnd data =
     (case js_div (rnd (N * Sxy n - S1 n * Sy n)) D of Num q \<Rightarrow> Num (rnd q) | r \<Rightarrow> r)"
    unfolding calculateSlope_with_def Let_def n_def [symmetric] fold prod.case
    by (simp add: r1 [unfolded N_def] r2 r4 [unfolded N_def] r5
        D_def [unfolded N_def, symmetric] r6 N_def)
  then show ?thesis
    by (simp add: D_def N_def S1_def Sy_def Sxy_def S2_def n_def)
qed

lemma calculateSlope_with_int_line:
  fixes a b B :: real
  assumes rnd: "\<And>v. v \<in> \<int> \<Longrightarrow> \<bar>v\<bar> \<le> B \<Longrightarrow> rnd v = v"
    and n: "2 \<le> n" and a: "a \<in> \<int>" and b: "b \<in> \<int>"
    and bound: "real n ^ 3 * (\<bar>a\<bar> * real n + \<bar>b\<bar> + real n) \<le> B"
  shows "calculateSlope_with rnd (map (\<lambda>x. a * real x + b) [0..<n]) = Num a"
proof -
  define N where "N = real n"
  define Y where "Y = \<bar>a\<bar> * N + \<bar>b\<bar>"
  define f where "f = (\<lambda>x. a * real x + b)"
  define data where "data = map f [0..<n]"
  define S1 where "S1 = (\<Sum>x<n. real x)"
  define S2 where "S2 = (\<Sum>x<n. real x * real x)"
  define Sy where "Sy = (\<Sum>x<n. data ! x)"
  define Sxy where "Sxy = (\<Sum>x<n. real x * data ! x)"
  define D where "D = N * S2 - S1 * S1"
  have len: "length data = n" by (simp add: data_def)
  from n have N1: "1 \<le> N" and N0: "0 \<le> N" by (simp_all add: N_def)
  have Y0: "0 \<le> Y" using N0 by (simp add: Y_def)
  have f_nth: "data ! x = f x" if "x < n" for x using that by (simp add: data_def)
  have f_int: "f x \<in> \<int>" for x unfolding f_def using a b by (intro Ints_add Ints_mult Ints_of_nat)
  have f_abs: "\<bar>f x\<bar> \<le> Y" if "x < n" for x
  proof -
    have "\<bar>f x\<bar> \<le> \<bar>a * real x\<bar> + \<bar>b\<bar>" unfolding f_def by (rule abs_triangle_ineq)
    also have "\<dots> = \<bar>a\<bar> * real x + \<bar>b\<bar>" by (simp add: abs_mult)
    also have "\<dots> \<le> \<bar>a\<bar> * N + \<bar>b\<bar>"
      using that by (simp add: N_def mult_left_mono)
    finally show ?thesis by (simp add: Y_def)
  qed
  have bound': "real (length data) ^ 3 * (Y + real (length data)) \<le> B"
    using bound by (simp add: len Y_def N_def)
  have "N ^ 3 * Y + N ^ 4 = N ^ 3 * (Y + N)" by (simp add: algebra_simps power4_eq_xxxx power3_eq_cube)
  also from bound' have "\<dots> \<le> B" by (simp add: N_def len)
  finally have sumB: "N ^ 3 * Y + N ^ 4 \<le> B" .
  have N3Y0: "0 \<le> N ^ 3 * Y" using N0 Y0 by simp
  have N40: "0 \<le> N ^ 4" using N0 by simp
  from sumB N3Y0 N40 have B3: "N ^ 3 * Y \<le> B" by linarith
  have p03: "1 \<le> N ^ 3" using N1 by simp
  have Dpos: "0 < D" unfolding D_def N_def S1_def S2_def by (rule slope_denominator_pos [OF n])
  have S2_le: "S2 \<le> real n * N ^ 2"
  proof -
    have "\<bar>S2\<bar> \<le> real n * N ^ 2" unfolding S2_def
    proof (rule sum_abs_bound)
      fix x assume "x < n"
      then have "real x \<le> N" by (simp add: N_def)
      then have "real x * real x \<le> N * N" by (intro mult_mono) simp_all
      then show "\<bar>real x * real x\<bar> \<le> N ^ 2" by (simp add: power2_eq_square)
    qed
    then show ?thesis by simp
  qed
  have D4: "D \<le> N ^ 4"
  proof -
    have "D \<le> N * S2" unfolding D_def by simp
    also have "\<dots> \<le> N * (real n * N ^ 2)" using S2_le N0 by (intro mult_left_mono)
    finally show ?thesis by (simp add: N_def power4_eq_xxxx power2_eq_square)
  qed
  have y: "Sy = a * S1 + b * N"
  proof -
    have "Sy = (\<Sum>x<n. a * real x + b)" unfolding Sy_def by (rule sum.cong) (simp_all add: f_nth f_def)
    then show ?thesis by (simp add: linear_sums S1_def N_def)
  qed
  have xy: "Sxy = a * S2 + b * S1"
  proof -
    have "Sxy = (\<Sum>x<n. real x * (a * real x + b))" unfolding Sxy_def
      by (rule sum.cong) (simp_all add: f_nth f_def)
    then show ?thesis by (simp add: linear_sums S1_def S2_def)
  qed
  have num: "N * Sxy - S1 * Sy = a * D"
    unfolding y xy D_def by (simp add: algebra_simps)
  have aD: "\<bar>a * D\<bar> \<le> N ^ 3 * Y"
  proof -
    have "\<bar>a * D\<bar> = \<bar>a\<bar> * D" using Dpos by (simp add: abs_mult)
    also have "\<dots> \<le> \<bar>a\<bar> * N ^ 4" using D4 by (intro mult_left_mono) simp_all
    also have "\<dots> = N ^ 3 * (\<bar>a\<bar> * N)" by (simp add: power4_eq_xxxx power3_eq_cube)
    also have "\<dots> \<le> N ^ 3 * Y" using N0 by (intro mult_left_mono) (simp_all add: Y_def)
    finally show ?thesis .
  qed
  have a_abs: "\<bar>a\<bar> \<le> B"
  proof -
    have "\<bar>a\<bar> * 1 \<le> \<bar>a\<bar> * N" using N1 by (intro mult_left_mono) simp_all
    also have "\<dots> \<le> Y" by (simp add: Y_def)
    also have "\<dots> = 1 * Y" by simp
    also have "\<dots> \<le> N ^ 3 * Y" using p03 Y0 by (rule mult_right_mono)
    finally show ?thesis using B3 by simp
  qed
  have D_int: "D \<in> \<int>" unfolding D_def N_def S1_def S2_def
    by (intro Ints_diff Ints_mult Ints_sum Ints_of_nat)
  have r3: "rnd (a * D) = a * D"
    using aD B3 by (intro rnd Ints_mult a D_int) simp_all
  have r7: "rnd a = a" using a a_abs by (rule rnd)
  have "calculateSlope_with rnd data =
     (case js_div (rnd (N * Sxy - S1 * Sy)) D of Num q \<Rightarrow> Num (rnd q) | r \<Rightarrow> r)"
    unfolding N_def Sxy_def S1_def Sy_def D_def S2_def len [symmetric]
  proof (rule calculateSlope_with_int_data [where B = B and Y = Y])
    show "2 \<le> length data" using n by (simp add: len)
    show "data ! x \<in> \<int>" if "x < length data" for x using that f_int by (simp add: f_nth len)
    show "\<bar>data ! x\<bar> \<le> Y" if "x < length data" for x using that f_abs by (simp add: f_nth len)
    show "real (length data) ^ 3 * (Y + real (length data)) \<le> B" by (rule bound')
  qed (rule rnd)
  also have "\<dots> = Num a" using Dpos by (simp add: num r3 js_div_def r7)
  finally show ?thesis by (simp add: data_def f_def)
qed

lemma calculateSlope_int_line:
  assumes "2 \<le> n" "a \<in> \<int>" "b \<in> \<int>"
    and "real n ^ 3 * (\<bar>a\<bar> * real n + \<bar>b\<bar> + real n) \<le> 2 ^ 53"
  shows "calculateSlope (map (\<lambda>x. a * real x + b) [0..<n]) = Num a"
  unfolding calculateSlope_def
  by (rule calculateSlope_with_int_line [where B = "2 ^ 53"]) (rule dbl_exact, (rule assms | assumption)+)

lemmas dbl_eval =
  dbl_def binade_def exp_up.simps exp_down.simps pow2_def round_even_def Let_def

lemmas calculateSlope_eval = calculateSlope_def calculateSlope_with_def upt_rec

text \<open>
  The slope of a window of ten ADC counts, as \<^verbatim>\<open>gazeV\<close> computes it: only the quotient
  is rounded.
\<close>

lemma sum_below_10: "(\<Sum>x<(10::nat). g x) = g 0 + g 1 + g 2 + g 3 + g 4 + g 5 + g 6 + g 7 + g 8 + (g 9 :: real)"
  by (simp add: lessThan_nat_numeral lessThan_Suc)

lemma calculateSlope_window:
  assumes "\<forall>a \<in> set [a0, a1, a2, a3, a4, a5, a6, a7, a8, a9]. a \<in> \<int> \<and> \<bar>a\<bar> \<le> 1023"
  shows "calculateSlope [a0, a1, a2, a3, a4, a5, a6, a7, a8, a9] =
           Num (dbl ((10 * (a1 + 2 * a2 + 3 * a3 + 4 * a4 + 5 * a5 + 6 * a6 + 7 * a7 + 8 * a8 + 9 * a9)
                       - 45 * (a0 + a1 + a2 + a3 + a4 + a5 + a6 + a7 + a8 + a9)) / 825))"
proof -
  let ?data = "[a0, a1, a2, a3, a4, a5, a6, a7, a8, a9]"
  let ?xy = "a1 + 2 * a2 + 3 * a3 + 4 * a4 + 5 * a5 + 6 * a6 + 7 * a7 + 8 * a8 + 9 * a9"
  let ?y = "a0 + a1 + a2 + a3 + a4 + a5 + a6 + a7 + a8 + a9"
  have el: "?data ! x \<in> \<int> \<and> \<bar>?data ! x\<bar> \<le> 1023" if "x < length ?data" for x
    using assms that nth_mem [OF that] by blast
  have sxy: "(\<Sum>x<length ?data. real x * ?data ! x) = ?xy" by (simp add: sum_below_10)
  have sy: "(\<Sum>x<length ?data. ?data ! x) = ?y" by (simp add: sum_below_10)
  have s1: "(\<Sum>x<length ?data. real x) = 45" by (simp add: sum_below_10)
  have s2: "(\<Sum>x<length ?data. real x * real x) = 285" by (simp add: sum_below_10)
  have ints: "a0 \<in> \<int>" "a1 \<in> \<int>" "a2 \<in> \<int>" "a3 \<in> \<int>" "a4 \<in> \<int>" "a5 \<in> \<int>" "a6 \<in> \<int>"
    "a7 \<in> \<int>" "a8 \<in> \<int>" "a9 \<in> \<int>" using assms by simp_all
  have lo: "- 1023 \<le> a0" "- 1023 \<le> a1" "- 1023 \<le> a2" "- 1023 \<le> a3" "- 1023 \<le> a4" "- 1023 \<le> a5"
    "- 1023 \<le> a6" "- 1023 \<le> a7" "- 1023 \<le> a8" "- 1023 \<le> a9"
    and hi: "a0 \<le> 1023" "a1 \<le> 1023" "a2 \<le> 1023" "a3 \<le> 1023" "a4 \<le> 1023" "a5 \<le> 1023"
    "a6 \<le> 1023" "a7 \<le> 1023" "a8 \<le> 1023" "a9 \<le> 1023"
    using assms by (simp_all add: abs_le_iff)
  have num_int: "10 * ?xy - 45 * ?y \<in> \<int>"
    by (intro Ints_diff Ints_mult Ints_add ints) simp_all
  have "- (2 ^ 53) \<le> 10 * ?xy - 45 * ?y" "10 * ?xy - 45 * ?y \<le> 2 ^ 53"
    using lo hi by simp_all
  then have num_abs: "\<bar>10 * ?xy - 45 * ?y\<bar> \<le> 2 ^ 53" by (simp add: abs_le_iff)
  have "calculateSlope ?data =
     (case js_div
        (dbl (real (length ?data) * (\<Sum>x<length ?data. real x * ?data ! x)
               - (\<Sum>x<length ?data. real x) * (\<Sum>x<length ?data. ?data ! x)))
        (real (length ?data) * (\<Sum>x<length ?data. real x * real x)
               - (\<Sum>x<length ?data. real x) * (\<Sum>x<length ?data. real x))
      of Num q \<Rightarrow> Num (dbl q) | r \<Rightarrow> r)"
    unfolding calculateSlope_def
  proof (rule calculateSlope_with_int_data [where B = "2 ^ 53" and Y = 1023])
    show "dbl v = v" if "v \<in> \<int>" "\<bar>v\<bar> \<le> 2 ^ 53" for v using that by (rule dbl_exact)
    show "2 \<le> length ?data" by simp
    show "?data ! x \<in> \<int>" if "x < length ?data" for x using el [OF that] by blast
    show "\<bar>?data ! x\<bar> \<le> 1023" if "x < length ?data" for x using el [OF that] by blast
    show "real (length ?data) ^ 3 * (1023 + real (length ?data)) \<le> 2 ^ 53" by simp
  qed
  also have "\<dots> = (case js_div (dbl (10 * ?xy - 45 * ?y)) 825 of Num q \<Rightarrow> Num (dbl q) | r \<Rightarrow> r)"
    unfolding sxy sy s1 s2 by simp
  also have "\<dots> = (case js_div (10 * ?xy - 45 * ?y) 825 of Num q \<Rightarrow> Num (dbl q) | r \<Rightarrow> r)"
    by (simp only: dbl_exact [OF num_int num_abs])
  also have "\<dots> = Num (dbl ((10 * ?xy - 45 * ?y) / 825))"
    unfolding js_div_def by simp
  finally show ?thesis .
qed

text \<open>
  Claim C9 says that the result is exactly \<open>a\<close> for all coefficients. In doubles it is
  not: for the double nearest to 0.1 as \<open>a\<close>, with \<open>b = 0\<close> and \<open>n = 3\<close>, the window
  is \<open>0, a, 2 * a\<close> (all three are doubles) and the script returns
  0.09999999999999998 (\<open>2 ^ - 55\<close> below \<open>a\<close>): the sum \<open>3 * a\<close> is rounded.
\<close>

theorem calculateSlope_tenth:
  "calculateSlope (map (\<lambda>x. (3602879701896397 / 36028797018963968) * real x + 0) [0..<3])
     = Num (900719925474099 / 9007199254740992)"
  apply (simp add: calculateSlope_eval)
  apply (simp add: dbl_eval js_div_def)
  done

text \<open>With large values the error is large: the window \<open>2 ^ 53, 2 ^ 53 + 2, 2 ^ 53 + 4\<close>.\<close>

lemma calculateSlope_big:
  "calculateSlope (map (\<lambda>x. 2 * real x + 2 ^ 53) [0..<3]) = Num (6004799503160661 / 2251799813685248)"
  apply (simp add: calculateSlope_eval)
  apply (simp add: dbl_eval js_div_def)
  done

text \<open>
  Claim C9, amended. For every window length \<open>n \<ge> 2\<close> and all coefficients \<open>a\<close> and
  \<open>b\<close>, the least-squares quotient of the script on the sequence whose value at index
  \<open>x\<close> is \<open>a * x + b\<close> (\<open>x\<close> from 0 to \<open>n - 1\<close>) is \<open>a\<close> in exact arithmetic: the
  divisor is not zero there. The script, in doubles, returns exactly \<open>a\<close> when \<open>a\<close> and
  \<open>b\<close> are whole numbers with \<open>n ^ 3 * (\<bar>a\<bar> * n + \<bar>b\<bar> + n) \<le> 2 ^ 53\<close>: then no sum and
  no product of the computation is rounded.
\<close>

theorem calculateSlope_linear:
  assumes "2 \<le> n"
  shows "calculateSlope_with (\<lambda>v. v) (map (\<lambda>x. a * real x + b) [0..<n]) = Num a \<and>
         (a \<in> \<int> \<and> b \<in> \<int> \<and> real n ^ 3 * (\<bar>a\<bar> * real n + \<bar>b\<bar> + real n) \<le> 2 ^ 53 \<longrightarrow>
            calculateSlope (map (\<lambda>x. a * real x + b) [0..<n]) = Num a)"
  using calculateSlope_exact_line [OF assms] calculateSlope_int_line [OF assms] by blast

text \<open>The window 5, 7, 9 has slope 2.\<close>

theorem calculateSlope_linear_witness:
  "calculateSlope_with (\<lambda>v. v) [5, 7, 9] = Num 2 \<and> calculateSlope [5, 7, 9] = Num 2"
  using calculateSlope_linear [of 3 2 5] by (simp add: upt_rec)

section \<open>Properties of getThreshold\<close>

lemma fold_max_readings:
  "fold (\<lambda>val max_val. if max_val < val then val else max_val) xs (m::real) = Max (insert m (set xs))"
proof (induction xs arbitrary: m)
  case Nil
  show ?case by simp
next
  case (Cons x xs)
  have "(if m < x then x else m) = max m x" by (simp add: max_def)
  with Cons show ?case
    by (cases "xs = []") (simp_all add: max.assoc insert_commute)
qed

lemma readings_nonneg: "x \<in> set (readings ps) \<Longrightarrow> 0 \<le> x"
  by (auto simp: readings_def)

lemma Max_readings:
  "ps \<noteq> [] \<Longrightarrow> Max (insert 0 (set (readings ps))) = Max (set (readings ps))"
proof -
  assume ne: "ps \<noteq> []"
  then have fin: "finite (set (readings ps))" and ne': "set (readings ps) \<noteq> {}"
    by (simp_all add: readings_def)
  have "0 \<le> Max (set (readings ps))"
    using readings_nonneg [of "Max (set (readings ps))" ps] Max_in [OF fin ne'] by simp
  then show ?thesis using fin ne' by (simp add: max_def)
qed

lemma getThreshold_loop_run:
  assumes "ms \<le> real ((t + duration ps) div 1000) - startTimer"
  shows "\<exists>read rest. ps = read @ rest \<and>
           getThreshold_loop ms startTimer m \<lparr>now = t, p0 = ps, p1 = q\<rparr>
             = Some (fold (\<lambda>val max_val. if max_val < val then val else max_val) (readings read) m,
                     \<lparr>now = t + duration read, p0 = rest, p1 = q\<rparr>) \<and>
           (\<forall>k < length read. real ((t + duration (take k read)) div 1000) - startTimer < ms) \<and>
           ms \<le> real ((t + duration read) div 1000) - startTimer"
  using assms
proof (induction ps arbitrary: t m)
  case Nil
  then show ?case
    by (subst getThreshold_loop.simps) (simp add: millis_def duration_def readings_def)
next
  case (Cons p ps)
  obtain d v where p: "p = (d, v)" by (cases p)
  show ?case
  proof (cases "millis \<lparr>now = t, p0 = p # ps, p1 = q\<rparr> - startTimer < ms")
    case False
    then have "getThreshold_loop ms startTimer m \<lparr>now = t, p0 = p # ps, p1 = q\<rparr>
                 = Some (m, \<lparr>now = t, p0 = p # ps, p1 = q\<rparr>)"
      by (subst getThreshold_loop.simps) simp
    with False show ?thesis
      by (intro exI [of _ "[]"] exI [of _ "p # ps"]) (simp add: duration_def readings_def millis_def)
  next
    case True
    let ?m' = "if m < real v then real v else m"
    from Cons.prems have "ms \<le> real ((t + d + duration ps) div 1000) - startTimer"
      by (simp add: p duration_def add.assoc)
    from Cons.IH [OF this, of ?m'] obtain read rest where
      ps: "ps = read @ rest" and
      run: "getThreshold_loop ms startTimer ?m' \<lparr>now = t + d, p0 = ps, p1 = q\<rparr>
              = Some (fold (\<lambda>val max_val. if max_val < val then val else max_val) (readings read) ?m',
                      \<lparr>now = t + d + duration read, p0 = rest, p1 = q\<rparr>)" and
      before: "\<forall>k < length read. real ((t + d + duration (take k read)) div 1000) - startTimer < ms" and
      after: "ms \<le> real ((t + d + duration read) div 1000) - startTimer"
      by blast
    have step: "getThreshold_loop ms startTimer m \<lparr>now = t, p0 = p # ps, p1 = q\<rparr>
                  = getThreshold_loop ms startTimer ?m' \<lparr>now = t + d, p0 = ps, p1 = q\<rparr>"
      using True by (subst getThreshold_loop.simps) (simp add: emg_def p)
    have before': "\<forall>k < length (p # read).
                     real ((t + duration (take k (p # read))) div 1000) - startTimer < ms"
    proof (intro allI impI)
      fix k assume k: "k < length (p # read)"
      show "real ((t + duration (take k (p # read))) div 1000) - startTimer < ms"
      proof (cases k)
        case 0
        with True show ?thesis by (simp add: millis_def duration_def)
      next
        case (Suc j)
        with k before show ?thesis by (simp add: p duration_def add.assoc)
      qed
    qed
    show ?thesis
      apply (rule exI [of _ "p # read"], rule exI [of _ rest])
      using ps run after before' unfolding step
      by (simp add: p duration_def readings_def add.assoc)
  qed
qed

text \<open>
  What a call returns, whether \<open>percent\<close> is given or not: for \<open>ms \<le> 0\<close> no sample is
  read and the maximum stays 0. When the recording on the pin lasts until the deadline, the
  call returns: it has read a prefix \<open>read\<close> of the recording, every one of these reads
  began before \<open>ms\<close> milliseconds had passed and the deadline has passed after the last,
  and the maximum is the greatest sample read (0 when none was read).
\<close>

lemma getThreshold_running_max:
  "(ms \<le> 0 \<longrightarrow> getThreshold ms percent w = Some (scale_percent 0 percent, w)) \<and>
   (ms \<le> real ((now w + duration (p0 w)) div 1000) - millis w \<longrightarrow>
      (\<exists>read rest. p0 w = read @ rest \<and>
         getThreshold ms percent w
           = Some (scale_percent (if read = [] then 0 else Max (set (readings read))) percent,
                   w\<lparr>now := now w + duration read, p0 := rest\<rparr>) \<and>
         (\<forall>k < length read. real ((now w + duration (take k read)) div 1000) - millis w < ms) \<and>
         ms \<le> real ((now w + duration read) div 1000) - millis w))"
proof (intro conjI impI)
  assume "ms \<le> 0"
  then have "getThreshold_loop ms (millis w) 0 w = Some (0, w)"
    by (subst getThreshold_loop.simps) simp
  then show "getThreshold ms percent w = Some (scale_percent 0 percent, w)"
    by (simp add: getThreshold_def)
next
  assume enough: "ms \<le> real ((now w + duration (p0 w)) div 1000) - millis w"
  have w: "\<lparr>now = now w, p0 = p0 w, p1 = p1 w\<rparr> = w" by simp
  from getThreshold_loop_run [OF enough, of 0 "p1 w"] obtain read rest where
    ps: "p0 w = read @ rest" and
    run: "getThreshold_loop ms (millis w) 0 \<lparr>now = now w, p0 = p0 w, p1 = p1 w\<rparr>
            = Some (fold (\<lambda>val max_val. if max_val < val then val else max_val) (readings read) 0,
                    \<lparr>now = now w + duration read, p0 = rest, p1 = p1 w\<rparr>)" and
    before: "\<forall>k < length read. real ((now w + duration (take k read)) div 1000) - millis w < ms" and
    after: "ms \<le> real ((now w + duration read) div 1000) - millis w"
    by blast
  have M: "fold (\<lambda>val max_val. if max_val < val then val else max_val) (readings read) 0
             = (if read = [] then 0 else Max (set (readings read)))"
    by (simp add: fold_max_readings Max_readings) (simp add: readings_def)
  have w': "w\<lparr>now := now w + duration read, p0 := rest\<rparr>
              = \<lparr>now = now w + duration read, p0 = rest, p1 = p1 w\<rparr>" by simp
  have run': "getThreshold_loop ms (millis w) 0 w
            = Some (fold (\<lambda>val max_val. if max_val < val then val else max_val) (readings read) 0,
                    \<lparr>now = now w + duration read, p0 = rest, p1 = p1 w\<rparr>)"
    using run by (simp only: w)
  show "\<exists>read rest. p0 w = read @ rest \<and>
         getThreshold ms percent w
           = Some (scale_percent (if read = [] then 0 else Max (set (readings read))) percent,
                   w\<lparr>now := now w + duration read, p0 := rest\<rparr>) \<and>
         (\<forall>k < length read. real ((now w + duration (take k read)) div 1000) - millis w < ms) \<and>
         ms \<le> real ((now w + duration read) div 1000) - millis w"
    apply (rule exI [of _ read], rule exI [of _ rest])
    using ps run' before after unfolding getThreshold_def M w'
    by simp
qed



section \<open>Properties of countSpikes\<close>

lemma replicate_numeral: "replicate (numeral k) x = x # replicate (pred_numeral k) x"
  by (simp add: numeral_eq_Suc)

lemma fold_nth_sum:
  "n \<le> length data \<Longrightarrow> fold (\<lambda>j sum. sum + data ! j) [0..<n] (a::real) = a + sum_list (take n data)"
  by (induction n) (simp_all add: take_Suc_conv_app_nth)

lemma movingAverage_mean:
  "movingAverage data (length data) = sum_list data / real (length data)"
  by (simp add: movingAverage_def fold_nth_sum)

lemmas countSpikes_eval =
  replicate_numeral countSpikes_def countSpikes_loop.simps countSpikes_body_def
  rising.simps rising_body_def settle_def spike_init_def fill_def shift_push_def movingAverage_mean
  emg_def millis_def runningTimeMicros_def samplingRate_def waitMicros_def Let_def

text \<open>
  A recording at the pace of the loop (each conversion 100 microseconds, so every pass
  lasts the period of 5 ms): 20 samples of 0, 103 samples of 1023, 20 samples of 0,
  3 samples of 1023 and 18 samples of 0. The mean of the window is above 150 from the
  23rd sample to the 140th, that is for 585 ms, falls back, and is above 150 once more
  from the 146th sample to the 163rd, for 85 ms.
\<close>

definition w_grip :: world where
  "w_grip = \<lparr>now = 0,
     p0 = replicate 20 (100, 0) @ replicate 103 (100, 1023) @ replicate 20 (100, 0)
          @ replicate 3 (100, 1023) @ replicate 18 (100, 0),
     p1 = []\<rparr>"

text \<open>A call that ends with the grip returns -1.\<close>

lemma countSpikes_grip_only: "map_option fst (countSpikes 700 w_grip) = Some (- 1)"
  by (simp add: w_grip_def countSpikes_eval)

text \<open>
  Claim C1 says that a grip of at least 500 ms makes the call return -1 whatever follows
  it. On \<open>w_grip\<close> a call of 800 ms sees the grip and then the short excursion:
  \<open>settle\<close> sets the counter to -1 after the grip and adds 1 to it after the
  excursion, and the call returns 0.
\<close>

theorem countSpikes_grip_then_spike: "map_option fst (countSpikes 800 w_grip) = Some 0"
  by (simp add: w_grip_def countSpikes_eval)

section \<open>Properties of reactionTime\<close>

lemma duration_replicate: "duration (replicate n (d, v)) = n * d"
  by (induction n) (simp_all add: duration_def)

lemma duration_Cons: "duration ((d, v) # ps) = d + duration ps"
  by (simp add: duration_def)

lemma reactionTime_loop_quiet:
  assumes "\<forall>(d, v) \<in> set qs. \<not> exceeds (real v) threshold"
    and "\<forall>k < length qs. real ((t + duration (take k qs)) div 1000) - startTime < ms_rt"
  shows "reactionTime_loop threshold startTime ro \<lparr>now = t, p0 = qs @ rest, p1 = q\<rparr>
           = reactionTime_loop threshold startTime ro \<lparr>now = t + duration qs, p0 = rest, p1 = q\<rparr>"
  using assms
proof (induction qs arbitrary: t)
  case Nil
  show ?case by (simp add: duration_def)
next
  case (Cons p qs)
  obtain d v where p: "p = (d, v)" by (cases p)
  from Cons.prems(2) have now: "real (t div 1000) - startTime < ms_rt"
    by (auto simp: duration_def dest: spec [of _ 0])
  from Cons.prems(1) have v: "\<not> exceeds (real v) threshold"
    and qs: "\<forall>(d, v) \<in> set qs. \<not> exceeds (real v) threshold"
    by (auto simp: p)
  have later: "\<forall>k < length qs. real ((t + d + duration (take k qs)) div 1000) - startTime < ms_rt"
  proof (intro allI impI)
    fix k assume "k < length qs"
    then have "Suc k < length (p # qs)" by simp
    from Cons.prems(2) [rule_format, OF this]
    show "real ((t + d + duration (take k qs)) div 1000) - startTime < ms_rt"
      by (simp add: p duration_Cons add.assoc)
  qed
  have "reactionTime_loop threshold startTime ro \<lparr>now = t, p0 = (p # qs) @ rest, p1 = q\<rparr>
          = reactionTime_loop threshold startTime ro \<lparr>now = t + d, p0 = qs @ rest, p1 = q\<rparr>"
    using now v
    by (subst reactionTime_loop.simps)
      (simp add: millis_def reactionTime_body_def emg_def p split: prod.splits)
  also have "\<dots> = reactionTime_loop threshold startTime ro
                     \<lparr>now = t + d + duration qs, p0 = rest, p1 = q\<rparr>"
    by (rule Cons.IH [OF qs later])
  finally show ?case by (simp add: p duration_Cons add.assoc)
qed

text \<open>
  Conversions of 300 microseconds. In \<open>w_late\<close> the 5000th sample is the first
  above the threshold: the loop test before it reads 1499 ms, the clock after it 1500 ms.
  In \<open>w_later\<close> that conversion takes one millisecond more.
\<close>

definition w_late :: world where
  "w_late = \<lparr>now = 0, p0 = replicate 4999 (300, 0) @ [(300, 300)], p1 = []\<rparr>"

text \<open>
  Conversions of 300 microseconds. In \<open>w_late\<close> the 5000th sample is the first
  above the threshold: the loop test before it reads 1499 ms, the clock after it 1500 ms.
  In \<open>w_later\<close> that conversion takes one millisecond more.
\<close>

definition w_later :: world where
  "w_later = \<lparr>now = 0, p0 = replicate 4999 (300, 0) @ [(1300, 300)], p1 = []\<rparr>"

lemma quiet_before_deadline:
  "\<forall>k < length (replicate 4999 (300::nat, 0::nat)).
     real ((0 + duration (take k (replicate 4999 (300, 0)))) div 1000) - 0 < ms_rt"
proof (intro allI impI)
  fix k :: nat assume "k < length (replicate 4999 (300::nat, 0::nat))"
  then have "k * 300 div 1000 < 1500" by simp
  then have "real (k * 300 div 1000) < 1500" by linarith
  moreover have "take k (replicate 4999 (300::nat, 0::nat)) = replicate k (300, 0)"
    using \<open>k < length (replicate 4999 (300::nat, 0::nat))\<close> by (simp add: min_def)
  ultimately show "real ((0 + duration (take k (replicate 4999 (300, 0)))) div 1000) - 0 < ms_rt"
    by (simp add: duration_replicate)
qed

text \<open>
  Claim C5 says that the call returns the elapsed time of the first sample above the
  threshold. On \<open>w_late\<close> that time is 1500, the value \<open>result\<close> starts with, and
  the call returns \<^verbatim>\<open>undefined\<close>; on \<open>w_later\<close> it is 1501 and is returned.
\<close>

theorem reactionTime_sentinel_collision:
  "map_option fst (reactionTime Cue_none (Some 200) w_late) = Some None \<and>
   map_option fst (reactionTime Cue_none (Some 200) w_later) = Some (Some 1501)"
proof -
  have quiet: "\<forall>(d, v) \<in> set (replicate 4999 (300::nat, 0::nat)). \<not> exceeds (real v) (Some 200)"
    by (simp add: exceeds_def)
  note skip = reactionTime_loop_quiet [OF quiet quiet_before_deadline, where ro = "(ms_rt, True)" and q = "[]"]
  have late: "reactionTime_loop (Some 200) 0 (ms_rt, True) w_late
                = Some ((1500, False), \<lparr>now = 1500000, p0 = [], p1 = []\<rparr>)"
    unfolding w_late_def skip
    by (simp add: duration_replicate reactionTime_loop.simps reactionTime_body_def exceeds_def
        emg_def millis_def)
  have later: "reactionTime_loop (Some 200) 0 (ms_rt, True) w_later
                = Some ((1501, False), \<lparr>now = 1501000, p0 = [], p1 = []\<rparr>)"
    unfolding w_later_def skip
    by (simp add: duration_replicate reactionTime_loop.simps reactionTime_body_def exceeds_def
        emg_def millis_def)
  have start: "millis w_late = 0" "millis w_later = 0"
    by (simp_all add: w_late_def w_later_def millis_def)
  show ?thesis
    by (simp add: reactionTime_def start late later)
qed

section \<open>The first full window\<close>

lemma window_first_full:
  assumes "Suc (length b) = n" and "2 \<le> n"
  shows "window n b x = tl b @ [x, x]"
proof -
  from assms have "b \<noteq> []" by auto
  with assms show ?thesis by (simp add: window_def fill_def shift_push_def Let_def)
qed

lemma window_length:
  assumes "length b \<le> n" and "0 < n"
  shows "length (window n b x) \<le> n"
  using assms by (auto simp: window_def fill_def shift_push_def Let_def)

lemma window_split:
  "(let b1 = fill n b x in if length b1 = n then f (shift_push b1 x) else g b1)
     = (if length (fill n b x) = n then f (window n b x) else g (window n b x))"
  by (simp add: window_def Let_def)

lemma settle_buffer [simp]: "buffer (settle s w) = buffer s"
  by (simp add: settle_def Let_def)

lemma rising_body_buffer:
  "rising_body s t w = Some (s', t', w') \<Longrightarrow> length (buffer s) \<le> n \<Longrightarrow> 0 < n
     \<Longrightarrow> length (buffer s') \<le> n"
  by (auto simp: rising_body_def shift_push_def Let_def split: option.splits if_splits)

lemma rising_buffer:
  "rising s t w = Some (s', w') \<Longrightarrow> length (buffer s) \<le> n \<Longrightarrow> 0 < n
     \<Longrightarrow> length (buffer s') \<le> n"
proof (induction s t w rule: rising.induct)
  case (1 s t w)
  show ?case
  proof (cases "smooth_signal s > threshold_cs")
    case True
    with "1.prems"(1) obtain s1 t1 w1 where
      b: "rising_body s t w = Some (s1, t1, w1)" and r: "rising s1 t1 w1 = Some (s', w')"
      by (subst (asm) rising.simps) (auto split: option.splits)
    from rising_body_buffer [OF b "1.prems"(2,3)] "1.IH" [OF True b refl refl r] "1.prems"(3)
    show ?thesis by simp
  next
    case False
    with "1.prems" show ?thesis by (subst (asm) rising.simps) simp
  qed
qed

lemma rising_below: "\<not> smooth_signal s > threshold_cs \<Longrightarrow> rising s t w = Some (s, w)"
  by (subst rising.simps) simp

lemma countSpikes_body_first_full:
  assumes "length (buffer s) = 19" and "emg w = Some (x, w1)"
  shows "countSpikes_body s t w =
           (case rising (s\<lparr>buffer := tl (buffer s) @ [x, x],
                           smooth_signal := sum_list (tl (buffer s) @ [x, x]) / 20\<rparr>)
                   (runningTimeMicros w1) w1 of
              None \<Rightarrow> None
            | Some (s2, w2) \<Rightarrow>
                Some (settle s2 w2, runningTimeMicros (samplingRate period_cs t w2),
                      samplingRate period_cs t w2))"
proof -
  from assms(1) have "buffer s \<noteq> []" by auto
  with assms show ?thesis
    by (simp add: countSpikes_body_def fill_def shift_push_def Let_def movingAverage_mean
        split: option.splits)
qed

lemma countSpikes_body_length:
  assumes "countSpikes_body s t w = Some (s', t', w')" and "length (buffer s) \<le> 20"
  shows "length (buffer s') \<le> 20"
  using assms
  by (auto simp: countSpikes_body_def fill_def shift_push_def Let_def
      split: option.splits if_splits dest!: rising_buffer [where n = 20])

lemma gazeH_body_first_full:
  assumes "length (leftright_buffer g) = 9" and "gazeH_body (g, r) t w = Some ((g', r'), t', w')"
    and "eog w = Some (x, w1)"
  shows "leftright_buffer g' = tl (leftright_buffer g) @ [x, x]"
proof -
  from assms(1) have "leftright_buffer g \<noteq> []" by auto
  with assms show ?thesis
    by (auto simp: gazeH_body_def fill_def shift_push_def Let_def classifyH_def split: if_splits)
qed

lemma gazeH_body_length:
  assumes "gazeH_body (g, r) t w = Some ((g', r'), t', w')" and "length (leftright_buffer g) \<le> 10"
  shows "length (leftright_buffer g') \<le> 10"
  using assms
  by (auto simp: gazeH_body_def fill_def shift_push_def Let_def classifyH_def
      split: option.splits if_splits)

lemma blinks_body_first_full:
  assumes "length (buffer_bl s) = 1" and "blinks_body s t w = Some (s', t', w')"
    and "eog w = Some (x, w1)"
  shows "s' = s\<lparr>buffer_bl := [x, x]\<rparr>"
proof -
  from assms(1) obtain y where "buffer_bl s = [y]" by (cases "buffer_bl s") auto
  with assms show ?thesis
    by (auto simp: blinks_body_def fill_def shift_push_def Let_def blink_check_def)
qed

lemma blink_check_buffer [simp]: "buffer_bl (blink_check s w) = buffer_bl s"
  by (simp add: blink_check_def Let_def)

lemma blinks_body_length:
  assumes "blinks_body s t w = Some (s', t', w')" and "length (buffer_bl s) \<le> 2"
  shows "length (buffer_bl s') \<le> 2"
  using assms
  by (auto simp: blinks_body_def fill_def shift_push_def Let_def split: option.splits if_splits)


text \<open>
  The 20th pass of a call on a recording that opens with twenty samples of 1023 and goes
  on with zeros: the state and the board after 19 passes.
\<close>

definition w_burst :: world where
  "w_burst = \<lparr>now = 0, p0 = replicate 20 (100, 1023) @ replicate 18 (100, 0), p1 = []\<rparr>"

definition s_burst19 :: spike_state where
  "s_burst19 = spike_init\<lparr>buffer := replicate 19 1023\<rparr>"

definition w_burst19 :: world where
  "w_burst19 = \<lparr>now = 95000, p0 = (100, 1023) # replicate 18 (100, 0), p1 = []\<rparr>"

lemma burst_after_19_passes:
  "countSpikes_loop 95 0 spike_init 0 w_burst = Some (s_burst19, w_burst19)"
  by (simp add: w_burst_def s_burst19_def w_burst19_def countSpikes_eval)

text \<open>
  Claim C10 says that the buffer ends the pass in which it first reaches its capacity with
  the sample of that pass in its last two positions. In \<^verbatim>\<open>countSpikes\<close> this fails when the
  mean of that first window is above 150: the inner loop runs in the same pass and shifts
  later samples in. Here the sample of the pass is 1023 and the buffer ends the pass with
  0 in its last two positions.
\<close>

theorem countSpikes_first_window_overwritten:
  "length (buffer s_burst19) = 19 \<and> map_option fst (emg w_burst19) = Some 1023 \<and>
   map_option (\<lambda>(s', t', w'). drop 18 (buffer s')) (countSpikes_body s_burst19 95000 w_burst19)
     = Some [0, 0]"
  by (simp add: s_burst19_def w_burst19_def countSpikes_eval)

text \<open>
  Claim C10, amended. In the pass in which the buffer first reaches its capacity (it held
  one sample less than the capacity, the read gives \<open>x\<close>), the sample is inserted twice:
  in \<^verbatim>\<open>countSpikes\<close> the smoothing and the inner loop of that pass start from the buffer
  that ends with \<open>x, x\<close>, and the buffer ends the pass so when the mean of that window is
  at or below 150; in \<^verbatim>\<open>gazeH\<close> the buffer ends the pass with \<open>x, x\<close>; in \<^verbatim>\<open>blinks\<close>
  the buffer ends the pass as the pair \<open>x, x\<close> and nothing else of the state changes, so
  no detection starts on the first full pair. In all three a buffer within its capacity
  stays within it.
\<close>

theorem first_full_window_holds_sample_twice:
  assumes "emg w = Some (x, w1)"
  shows
    "(length (buffer s) = 19 \<longrightarrow>
        countSpikes_body s t w =
          (case rising (s\<lparr>buffer := tl (buffer s) @ [x, x],
                          smooth_signal := sum_list (tl (buffer s) @ [x, x]) / 20\<rparr>)
                  (runningTimeMicros w1) w1 of
             None \<Rightarrow> None
           | Some (s2, w2) \<Rightarrow>
               Some (settle s2 w2, runningTimeMicros (samplingRate period_cs t w2),
                     samplingRate period_cs t w2))) \<and>
     (length (buffer s) = 19 \<and> sum_list (tl (buffer s) @ [x, x]) / 20 \<le> threshold_cs \<longrightarrow>
        map_option (\<lambda>(s', t', w'). buffer s') (countSpikes_body s t w)
          = Some (tl (buffer s) @ [x, x])) \<and>
     (length (leftright_buffer g) = 9 \<longrightarrow>
        map_option (\<lambda>((g', r'), t', w'). leftright_buffer g') (gazeH_body (g, r) t w)
          = Some (tl (leftright_buffer g) @ [x, x])) \<and>
     (length (buffer_bl b) = 1 \<longrightarrow>
        map_option (\<lambda>(b', t', w'). b') (blinks_body b t w) = Some (b\<lparr>buffer_bl := [x, x]\<rparr>)) \<and>
     (length (buffer s) \<le> 20 \<longrightarrow>
        (case countSpikes_body s t w of None \<Rightarrow> True
         | Some (s', t', w') \<Rightarrow> length (buffer s') \<le> 20)) \<and>
     (length (leftright_buffer g) \<le> 10 \<longrightarrow>
        (case gazeH_body (g, r) t w of None \<Rightarrow> True
         | Some ((g', r'), t', w') \<Rightarrow> length (leftright_buffer g') \<le> 10)) \<and>
     (length (buffer_bl b) \<le> 2 \<longrightarrow>
        (case blinks_body b t w of None \<Rightarrow> True
         | Some (b', t', w') \<Rightarrow> length (buffer_bl b') \<le> 2))"
proof -
  have eog: "eog w = Some (x, w1)" using assms by (simp add: eog_def emg_def)
  have A: "length (buffer s) = 19 \<Longrightarrow>
        countSpikes_body s t w =
          (case rising (s\<lparr>buffer := tl (buffer s) @ [x, x],
                          smooth_signal := sum_list (tl (buffer s) @ [x, x]) / 20\<rparr>)
                  (runningTimeMicros w1) w1 of
             None \<Rightarrow> None
           | Some (s2, w2) \<Rightarrow>
               Some (settle s2 w2, runningTimeMicros (samplingRate period_cs t w2),
                     samplingRate period_cs t w2))"
    by (rule countSpikes_body_first_full [OF _ assms])
  have B: "map_option (\<lambda>(s', t', w'). buffer s') (countSpikes_body s t w)
          = Some (tl (buffer s) @ [x, x])"
    if "length (buffer s) = 19" "sum_list (tl (buffer s) @ [x, x]) / 20 \<le> threshold_cs"
    using that by (simp add: A rising_below)
  have C: "map_option (\<lambda>((g', r'), t', w'). leftright_buffer g') (gazeH_body (g, r) t w)
          = Some (tl (leftright_buffer g) @ [x, x])" if "length (leftright_buffer g) = 9"
  proof -
    from eog obtain y where y: "gazeH_body (g, r) t w = Some y"
      by (simp add: gazeH_body_def Let_def)
    obtain g' r' t' w' where "y = ((g', r'), t', w')" by (metis prod.exhaust)
    with y have "gazeH_body (g, r) t w = Some ((g', r'), t', w')" by simp
    with gazeH_body_first_full [OF that this eog] show ?thesis by simp
  qed
  have D: "map_option (\<lambda>(b', t', w'). b') (blinks_body b t w) = Some (b\<lparr>buffer_bl := [x, x]\<rparr>)"
    if "length (buffer_bl b) = 1"
  proof -
    from eog obtain y where y: "blinks_body b t w = Some y"
      by (simp add: blinks_body_def Let_def)
    obtain b' t' w' where "y = (b', t', w')" by (metis prod.exhaust)
    with y have "blinks_body b t w = Some (b', t', w')" by simp
    with blinks_body_first_full [OF that this eog] show ?thesis by simp
  qed
  have E: "case countSpikes_body s t w of None \<Rightarrow> True
         | Some (s', t', w') \<Rightarrow> length (buffer s') \<le> 20" if "length (buffer s) \<le> 20"
    using countSpikes_body_length [OF _ that] by (auto split: option.splits)
  have F: "case gazeH_body (g, r) t w of None \<Rightarrow> True
         | Some ((g', r'), t', w') \<Rightarrow> length (leftright_buffer g') \<le> 10"
    if "length (leftright_buffer g) \<le> 10"
    using gazeH_body_length [OF _ that] by (auto split: option.splits)
  have G: "case blinks_body b t w of None \<Rightarrow> True
         | Some (b', t', w') \<Rightarrow> length (buffer_bl b') \<le> 2" if "length (buffer_bl b) \<le> 2"
    using blinks_body_length [OF _ that] by (auto split: option.splits)
  from A B C D E F G show ?thesis by blast
qed

text \<open>A quiet start: 19 samples of 0 in the buffer, and a sample of 1023 to come.\<close>

definition w_first :: world where
  "w_first = \<lparr>now = 95000, p0 = [(100, 1023)], p1 = []\<rparr>"

definition s_first :: spike_state where
  "s_first = spike_init\<lparr>buffer := replicate 19 0\<rparr>"

definition g_first :: gaze_state where
  "g_first = gaze_init\<lparr>leftright_buffer := replicate 9 0\<rparr>"

definition b_first :: blink_state where
  "b_first = blink_init\<lparr>buffer_bl := [0]\<rparr>"

theorem first_full_window_holds_sample_twice_witness:
  "emg w_first = Some (1023, \<lparr>now = 95100, p0 = [], p1 = []\<rparr>) \<and>
   length (buffer s_first) = 19 \<and>
   sum_list (tl (buffer s_first) @ [1023, 1023]) / 20 \<le> threshold_cs \<and>
   length (leftright_buffer g_first) = 9 \<and>
   length (buffer_bl b_first) = 1 \<and>
   map_option (\<lambda>(s', t', w'). buffer s') (countSpikes_body s_first 95000 w_first)
     = Some (tl (buffer s_first) @ [1023, 1023]) \<and>
   map_option (\<lambda>((g', r'), t', w'). leftright_buffer g') (gazeH_body (g_first, At_none) 95000 w_first)
     = Some (tl (leftright_buffer g_first) @ [1023, 1023]) \<and>
   map_option (\<lambda>(b', t', w'). b') (blinks_body b_first 95000 w_first)
     = Some (b_first\<lparr>buffer_bl := [1023, 1023]\<rparr>)"
proof -
  have e: "emg w_first = Some (1023, \<lparr>now = 95100, p0 = [], p1 = []\<rparr>)"
    by (simp add: w_first_def emg_def)
  have h1: "length (buffer s_first) = 19" by (simp add: s_first_def)
  have h2: "sum_list (tl (buffer s_first) @ [1023, 1023]) / 20 \<le> threshold_cs"
    by (simp add: s_first_def replicate_numeral)
  have h3: "length (leftright_buffer g_first) = 9" by (simp add: g_first_def)
  have h4: "length (buffer_bl b_first) = 1" by (simp add: b_first_def)
  from first_full_window_holds_sample_twice [OF e, of s_first 95000 g_first At_none b_first]
    e h1 h2 h3 h4
  show ?thesis by blast
qed

section \<open>Properties of gazeV\<close>

text \<open>A caller that invokes \<^verbatim>\<open>gazeV\<close> \<open>n\<close> times in a row; it has the results in order.\<close>

fun gazeV_calls :: "nat \<Rightarrow> gaze_state \<Rightarrow> world \<Rightarrow> (LookingAt list \<times> gaze_state \<times> world) option" where
  "gazeV_calls 0 g w = Some ([], g, w)"
| "gazeV_calls (Suc n) g w =
     (case gazeV g w of
        None \<Rightarrow> None
      | Some (result, g', w') \<Rightarrow>
          (case gazeV_calls n g' w' of
             None \<Rightarrow> None
           | Some (results, g'', w'') \<Rightarrow> Some (result # results, g'', w'')))"

lemma calculateSlope_constant:
  assumes "c \<in> \<int>" and "\<bar>c\<bar> \<le> 2 ^ 40"
  shows "calculateSlope (replicate 10 c) = Num 0"
proof -
  have "calculateSlope (map (\<lambda>x. 0 * real x + c) [0..<10]) = Num 0"
    by (rule calculateSlope_int_line) (use assms in simp_all)
  then show ?thesis by (simp add: map_replicate_const)
qed

text \<open>
  A steady look upwards: a hundred samples of 700, each conversion 100 microseconds, so
  every pass lasts the period of 20 ms and a call makes 25 passes. The states and boards
  between four calls in a row follow.
\<close>

definition w_stare :: world where
  "w_stare = \<lparr>now = 0, p0 = replicate 100 (100, 700), p1 = []\<rparr>"

definition g_latched :: gaze_state where
  "g_latched = gaze_init\<lparr>currently_up := True, cooldown_counter := 26,
                 blink_buffer := replicate 16 700, updown_buffer := replicate 10 700\<rparr>"

definition w_stare3 :: world where
  "w_stare3 = \<lparr>now = 1500000, p0 = replicate 25 (100, 700), p1 = []\<rparr>"

lemma slope700:
  "calculateSlope [700, 700, 700, 700, 700, 700, 700, 700, 700, 700] = Num 0"
  using calculateSlope_constant [of 700] by (simp add: replicate_numeral)

lemmas gazeV_eval =
  replicate_numeral gazeV_def gazeV_loop.simps gazeV_body_def analyseV_def stagger_def
  classifyV_def avgBuffer_def slope700 eog_def millis_def runningTimeMicros_def
  samplingRate_def waitMicros_def Let_def gaze_init_def

definition g_stare1 :: gaze_state where
  "g_stare1 = gaze_init\<lparr>blink_buffer := replicate 16 700, updown_buffer := replicate 9 700\<rparr>"

definition g_stare2 :: gaze_state where
  "g_stare2 = gaze_init\<lparr>cooldown_counter := 25, blink_buffer := replicate 16 700,
                updown_buffer := replicate 10 700\<rparr>"

definition w_stare1 :: world where
  "w_stare1 = \<lparr>now = 500000, p0 = replicate 75 (100, 700), p1 = []\<rparr>"

definition w_stare2 :: world where
  "w_stare2 = \<lparr>now = 1000000, p0 = replicate 50 (100, 700), p1 = []\<rparr>"

definition w_stare4 :: world where
  "w_stare4 = \<lparr>now = 2000000, p0 = [], p1 = []\<rparr>"

lemma stare_first_call: "gazeV gaze_init w_stare = Some (At_none, g_stare1, w_stare1)"
  by (simp add: w_stare_def w_stare1_def g_stare1_def gazeV_eval)

lemma stare_second_call: "gazeV g_stare1 w_stare1 = Some (At_none, g_stare2, w_stare2)"
  by (simp add: w_stare1_def w_stare2_def g_stare1_def g_stare2_def gazeV_eval)

lemma stare_third_call: "gazeV g_stare2 w_stare2 = Some (At_up, g_latched, w_stare3)"
  by (simp add: w_stare2_def w_stare3_def g_stare2_def g_latched_def gazeV_eval)

lemma stare_fourth_call: "gazeV g_latched w_stare3 = Some (At_up, g_latched, w_stare4)"
  by (simp add: w_stare3_def w_stare4_def g_latched_def gazeV_eval)

lemma gazeV_calls_numeral:
  "gazeV_calls (numeral k) g w =
     (case gazeV g w of
        None \<Rightarrow> None
      | Some (result, g', w') \<Rightarrow>
          (case gazeV_calls (pred_numeral k) g' w' of
             None \<Rightarrow> None
           | Some (results, g'', w'') \<Rightarrow> Some (result # results, g'', w'')))"
  by (simp add: numeral_eq_Suc)

text \<open>
  Claim C2 says that once up is latched, further means above \<open>baseline * 1.40\<close> do not
  set the result to up again before the mean has passed through the neutral band. On the
  steady look upwards the third call returns up and leaves \<open>currently_up\<close> set; the
  fourth call, on the same signal, returns up again.
\<close>

theorem gazeV_up_emitted_again:
  "gazeV_calls 3 gaze_init w_stare = Some ([At_none, At_none, At_up], g_latched, w_stare3) \<and>
   currently_up g_latched \<and>
   gazeV g_latched w_stare3 = Some (At_up, g_latched, w_stare4)"
  by (simp add: gazeV_calls_numeral stare_first_call stare_second_call stare_third_call
      stare_fourth_call) (simp add: g_latched_def)


text \<open>
  Claim C2, amended. In a pass with the updown buffer full, no blink slope and the cooldown
  over: with up latched (and down not), a mean above \<open>baseline * 1.40\<close> sets the result
  to up again; what the latch holds back is down: a mean below \<open>baseline * 0.60\<close> then
  only sets \<open>center_UD\<close> and leaves the result. A mean in the neutral band clears both
  latches when \<open>center_UD\<close> is set, and with both latches clear a mean above
  \<open>baseline * 1.40\<close> sets the result to up, one below \<open>baseline * 0.60\<close> to down.
  The same with up and down exchanged.
\<close>

theorem gazeV_latch_holds_back_opposite:
  assumes "length (updown_buffer g) = buffer_size_gz"
    and "\<not> js_less (calculateSlope (take buffer_size_gz (blink_buffer g))) (- 75)"
    and "cooldown_period \<le> cooldown_counter g"
  shows
    "(currently_up g \<and> \<not> currently_down g \<and> avgBuffer (updown_buffer g) > baseline * 1.40 \<longrightarrow>
        analyseV (g, result) = (g\<lparr>center_UD := False, currently_up := True\<rparr>, At_up)) \<and>
     (currently_up g \<and> avgBuffer (updown_buffer g) < baseline * 0.60 \<longrightarrow>
        analyseV (g, result) = (g\<lparr>center_UD := True\<rparr>, result)) \<and>
     (currently_down g \<and> \<not> currently_up g \<and> avgBuffer (updown_buffer g) < baseline * 0.60 \<longrightarrow>
        analyseV (g, result) = (g\<lparr>center_UD := False, currently_down := True\<rparr>, At_down)) \<and>
     (currently_down g \<and> avgBuffer (updown_buffer g) > baseline * 1.40 \<longrightarrow>
        analyseV (g, result) = (g\<lparr>center_UD := True\<rparr>, result)) \<and>
     (center_UD g \<and> baseline * 0.60 \<le> avgBuffer (updown_buffer g)
        \<and> avgBuffer (updown_buffer g) \<le> baseline * 1.40 \<longrightarrow>
        analyseV (g, result) = (g\<lparr>currently_up := False, currently_down := False\<rparr>, result)) \<and>
     (\<not> currently_up g \<and> \<not> currently_down g \<and> avgBuffer (updown_buffer g) > baseline * 1.40 \<longrightarrow>
        analyseV (g, result) = (g\<lparr>center_UD := False, currently_up := True\<rparr>, At_up)) \<and>
     (\<not> currently_up g \<and> \<not> currently_down g \<and> avgBuffer (updown_buffer g) < baseline * 0.60 \<longrightarrow>
        analyseV (g, result) = (g\<lparr>center_UD := False, currently_down := True\<rparr>, At_down))"
  using assms by (simp add: analyseV_def classifyV_def Let_def)

text \<open>
  After the stare upwards: look down (the mean falls to 100), which is held back, then
  to the centre (450), which clears the latches, then up again (700).
\<close>

definition g_down_held :: gaze_state where
  "g_down_held = g_latched\<lparr>updown_buffer := replicate 10 100\<rparr>"

definition g_centre :: gaze_state where
  "g_centre = g_latched\<lparr>center_UD := True, updown_buffer := replicate 10 450\<rparr>"

definition g_cleared :: gaze_state where
  "g_cleared = g_latched\<lparr>currently_up := False, center_UD := True\<rparr>"

theorem gazeV_latch_holds_back_opposite_witness:
  "analyseV (g_latched, At_none) = (g_latched\<lparr>center_UD := False, currently_up := True\<rparr>, At_up) \<and>
   analyseV (g_down_held, At_none) = (g_down_held\<lparr>center_UD := True\<rparr>, At_none) \<and>
   analyseV (g_centre, At_none) = (g_centre\<lparr>currently_up := False, currently_down := False\<rparr>, At_none) \<and>
   analyseV (g_cleared, At_none) = (g_cleared\<lparr>center_UD := False, currently_up := True\<rparr>, At_up)"
proof -
  have slope: "calculateSlope (replicate 10 700) = Num 0"
    by (rule calculateSlope_constant) simp_all
  have avg: "avgBuffer (replicate 10 700) = 700" "avgBuffer (replicate 10 100) = 100"
    "avgBuffer (replicate 10 450) = 450"
    by (simp_all add: avgBuffer_def replicate_numeral)
  have 1: "analyseV (g_latched, At_none) = (g_latched\<lparr>center_UD := False, currently_up := True\<rparr>, At_up)"
    using gazeV_latch_holds_back_opposite [of g_latched At_none]
    by (simp add: g_latched_def gaze_init_def slope avg)
  have 2: "analyseV (g_down_held, At_none) = (g_down_held\<lparr>center_UD := True\<rparr>, At_none)"
    using gazeV_latch_holds_back_opposite [of g_down_held At_none]
    by (simp add: g_down_held_def g_latched_def gaze_init_def slope avg)
  have 3: "analyseV (g_centre, At_none) = (g_centre\<lparr>currently_up := False, currently_down := False\<rparr>, At_none)"
    using gazeV_latch_holds_back_opposite [of g_centre At_none]
    by (simp add: g_centre_def g_latched_def gaze_init_def slope avg)
  have 4: "analyseV (g_cleared, At_none) = (g_cleared\<lparr>center_UD := False, currently_up := True\<rparr>, At_up)"
    using gazeV_latch_holds_back_opposite [of g_cleared At_none]
    by (simp add: g_cleared_def g_latched_def gaze_init_def slope avg)
  from 1 2 3 4 show ?thesis by simp
qed

section \<open>The pace of the throttled loops\<close>

text \<open>
  What the throttle does: a pass that began at \<open>t0\<close> ends at \<open>t0\<close> plus the period
  (rounded down to a microsecond), or later when the pass took longer.
\<close>

lemma samplingRate_exact:
  assumes "t0 \<le> now w" and "0 \<le> period"
  shows "samplingRate period (real t0) w = w\<lparr>now := max (now w) (t0 + nat \<lfloor>period\<rfloor>)\<rparr>"
proof -
  obtain k where k: "now w = t0 + k" using assms(1) by (metis le_Suc_ex)
  show ?thesis
  proof (cases "real k < period")
    case True
    then have "int k \<le> \<lfloor>period\<rfloor>" by (simp add: le_floor_iff)
    then have kle: "k \<le> nat \<lfloor>period\<rfloor>" by linarith
    have "\<lfloor>period - real k\<rfloor> = \<lfloor>period\<rfloor> - int k"
      by (metis floor_diff_of_int of_int_of_nat_eq)
    then have "nat \<lfloor>period - real k\<rfloor> = nat \<lfloor>period\<rfloor> - k" by linarith
    with True kle show ?thesis
      by (simp add: samplingRate_def runningTimeMicros_def waitMicros_def Let_def k max_def)
  next
    case False
    then have "\<lfloor>period\<rfloor> \<le> int k" by (simp add: floor_le_iff)
    then have "nat \<lfloor>period\<rfloor> \<le> k" by linarith
    with False show ?thesis
      by (simp add: samplingRate_def runningTimeMicros_def Let_def k max_def)
  qed
qed

text \<open>
  The time a throttled loop of period \<open>P\<close> needs at least to read a recording: each
  pass lasts its conversion or the period, whichever is longer.
\<close>

definition paced :: "nat \<Rightarrow> (nat \<times> nat) list \<Rightarrow> nat" where
  "paced P ps = sum_list (map (\<lambda>(d, v). max d P) ps)"

lemma paced_Cons: "paced P ((d, v) # ps) = max d P + paced P ps"
  by (simp add: paced_def)


section \<open>Properties of blinks\<close>

lemmas blinks_eval =
  replicate_numeral blinks_def blinks_loop.simps blinks_body_def blink_check_def blink_init_def
  fill_def shift_push_def eog_def millis_def runningTimeMicros_def samplingRate_def
  waitMicros_def Let_def

text \<open>
  A rise and a fall back: the samples 100, 100, 200 and then 50 for the rest, each
  conversion 100 microseconds. The third pass starts the check from the value 100, at
  40 ms; from the fourth pass on the signal is below that value.
\<close>

definition w_dip :: world where
  "w_dip = \<lparr>now = 0,
     p0 = [(100, 100), (100, 100), (100, 200), (100, 50), (100, 50), (100, 50), (100, 50),
           (100, 50), (100, 50), (100, 50)],
     p1 = []\<rparr>"

definition s_dip3 :: blink_state where
  "s_dip3 = \<lparr>buffer_bl = [100, 200], blink_check_timer = 40, start_val = 100,
              currently_checking = True, exit_bl = False\<rparr>"

lemma dip_third_pass:
  "blinks_loop 60 0 blink_init 0 w_dip
     = Some (s_dip3, \<lparr>now = 60000, p0 = drop 3 (p0 w_dip), p1 = []\<rparr>)"
  by (simp add: w_dip_def s_dip3_def blinks_eval)

text \<open>
  Claim C6 says that any sample inside the window at which the signal is below the
  recorded starting value makes the call return true. On \<open>w_dip\<close> the signal is
  below it from 60 ms on, 20 ms into the window, and a call of 200 ms returns false: the
  pair 200, 50 is tested on its older sample, and the pairs 50, 50 are not tested.
\<close>

theorem blinks_fall_back_missed:
  "blinks 200 w_dip = Some (False, \<lparr>now = 200000, p0 = [], p1 = []\<rparr>)"
  by (simp add: w_dip_def blinks_eval)

lemma blinks_loop_stops:
  "blinks_loop ms start_time s t w = Some (s', w') \<Longrightarrow>
     exit_bl s' \<or> ms \<le> millis w' - start_time"
proof (induction ms start_time s t w rule: blinks_loop.induct)
  case (1 ms start_time s t w)
  show ?case
  proof (cases "millis w - start_time < ms \<and> \<not> exit_bl s")
    case True
    with "1.prems" obtain s1 t1 w1 where
      b: "blinks_body s t w = Some (s1, t1, w1)"
      and r: "blinks_loop ms start_time s1 t1 w1 = Some (s', w')"
      by (subst (asm) blinks_loop.simps) (auto split: option.splits)
    from "1.IH" [OF True b refl refl r] show ?thesis .
  next
    case False
    with "1.prems" show ?thesis by (subst (asm) blinks_loop.simps) auto
  qed
qed

lemma blinks_body_pace:
  assumes "p0 w = (d, v) # ps"
  shows "\<exists>s1 w1. blinks_body s (real (now w)) w = Some (s1, real (now w1), w1)
           \<and> p0 w1 = ps \<and> now w1 = now w + max d 20000"
proof -
  have "samplingRate period_gz (real (now w)) (w\<lparr>now := now w + d, p0 := ps\<rparr>)
          = w\<lparr>now := now w + d, p0 := ps\<rparr>\<lparr>now := max (now w + d) (now w + nat \<lfloor>period_gz\<rfloor>)\<rparr>"
    using samplingRate_exact [of "now w" "w\<lparr>now := now w + d, p0 := ps\<rparr>" period_gz] by simp
  with assms show ?thesis
    by (simp add: blinks_body_def eog_def Let_def runningTimeMicros_def max_def)
qed

lemma blinks_loop_returns:
  assumes "ms \<le> real ((now w + paced 20000 (p0 w)) div 1000) - start_time"
  shows "\<exists>s' w'. blinks_loop ms start_time s (real (now w)) w = Some (s', w')"
  using assms
proof (induction "p0 w" arbitrary: s w)
  case Nil
  then have "\<not> millis w - start_time < ms" by (simp add: millis_def paced_def)
  then show ?case by (subst blinks_loop.simps) simp
next
  case (Cons p ps)
  show ?case
  proof (cases "millis w - start_time < ms \<and> \<not> exit_bl s")
    case False
    then show ?thesis by (subst blinks_loop.simps) auto
  next
    case True
    obtain d v where p: "p = (d, v)" by (cases p)
    with Cons.hyps(2) have pw: "p0 w = (d, v) # ps" by simp
    from blinks_body_pace [OF pw, of s] obtain s1 w1 where
      b: "blinks_body s (real (now w)) w = Some (s1, real (now w1), w1)" and ps: "p0 w1 = ps"
      and now: "now w1 = now w + max d 20000"
      by blast
    have "now w1 + paced 20000 (p0 w1) = now w + paced 20000 (p0 w)"
      by (simp add: now ps pw paced_Cons)
    with Cons.prems
    have "ms \<le> real ((now w1 + paced 20000 (p0 w1)) div 1000) - start_time" by simp
    from Cons.hyps(1) [OF ps [symmetric] this, of s1] obtain s' w' where
      "blinks_loop ms start_time s1 (real (now w1)) w1 = Some (s', w')" by blast
    with True b show ?thesis by (subst blinks_loop.simps) simp
  qed
qed

lemma blinks_loop_last:
  assumes "blinks_loop ms start_time s t w = Some (s', w')" and "\<not> exit_bl s" and "exit_bl s'"
  shows "\<exists>s0 t0 w0 t'. \<not> exit_bl s0 \<and> millis w0 - start_time < ms \<and>
           blinks_body s0 t0 w0 = Some (s', t', w')"
  using assms
proof (induction ms start_time s t w rule: blinks_loop.induct)
  case (1 ms start_time s t w)
  show ?case
  proof (cases "millis w - start_time < ms \<and> \<not> exit_bl s")
    case False
    with "1.prems" show ?thesis by (subst (asm) blinks_loop.simps) auto
  next
    case True
    with "1.prems"(1) obtain s1 t1 w1 where
      b: "blinks_body s t w = Some (s1, t1, w1)"
      and r: "blinks_loop ms start_time s1 t1 w1 = Some (s', w')"
      by (subst (asm) blinks_loop.simps) (auto split: option.splits)
    show ?thesis
    proof (cases "exit_bl s1")
      case True
      with r have "s' = s1" "w' = w1" by (subst (asm) blinks_loop.simps, simp)+
      with b \<open>millis w - start_time < ms \<and> \<not> exit_bl s\<close> show ?thesis by blast
    next
      case False
      from "1.IH" [OF \<open>millis w - start_time < ms \<and> \<not> exit_bl s\<close> b refl refl r False "1.prems"(3)]
      show ?thesis .
    qed
  qed
qed

text \<open>
  Claim C6, amended. A pass on a full buffer \<open>a0, a\<close> reads one sample \<open>x\<close>, runs the check
  on the pair \<open>a, x\<close> at the time of the read, and then waits out the 20 ms period. On a
  full buffer \<open>a, b\<close> (older, newer) the check does this: a pair that rises by more than
  40 while no check runs starts the window and records \<open>a\<close>; while a check runs, a pair
  that differs by more than 40 declares the blink when the window is open and its older
  sample \<open>a\<close> is below the recorded value, changes nothing when the window is open and
  \<open>a\<close> is not below it, and cancels the check when the window has expired; a pair that
  differs by at most 40 changes nothing; and the blink is declared by the check in that one
  case only. A pass that declares the blink ends the loop with its state and its device,
  with no further read; a pass that does not is followed by the rest of the loop. On a
  recording long enough for the passes of the call, the call returns, with the flag of the
  state the loop ended in. When it returns true, that state and the device are those left
  by a pass that began with no blink declared and less than \<open>ms\<close> elapsed: the call
  returns at the end of the declaring pass, after the wait of that pass, which can be at
  or after \<open>ms\<close>. When it returns false, \<open>ms\<close> has elapsed.
\<close>

theorem blinks_detection_window:
  "(buffer_bl s = [a0, a] \<and> eog w = Some (x, w1) \<longrightarrow>
      blinks_body s t w =
        Some (blink_check (s\<lparr>buffer_bl := [a, x]\<rparr>) w1,
              real (now (samplingRate period_gz t w1)), samplingRate period_gz t w1)) \<and>
   (buffer_bl s = [a, b] \<longrightarrow>
      (\<not> currently_checking s \<and> b - a > threshold_bl \<longrightarrow>
         blink_check s w = s\<lparr>blink_check_timer := millis w, start_val := a,
                               currently_checking := True\<rparr>) \<and>
      (currently_checking s \<and> \<bar>a - b\<bar> > threshold_bl \<and> millis w - blink_check_timer s < blink_time
         \<and> a < start_val s \<longrightarrow>
         blink_check s w = s\<lparr>currently_checking := False, exit_bl := True\<rparr>) \<and>
      (currently_checking s \<and> \<bar>a - b\<bar> > threshold_bl \<and> millis w - blink_check_timer s < blink_time
         \<and> \<not> a < start_val s \<longrightarrow>
         blink_check s w = s) \<and>
      (\<bar>a - b\<bar> \<le> threshold_bl \<longrightarrow> blink_check s w = s) \<and>
      (currently_checking s \<and> \<bar>a - b\<bar> > threshold_bl
         \<and> \<not> millis w - blink_check_timer s < blink_time \<longrightarrow>
         blink_check s w = s\<lparr>currently_checking := False\<rparr>) \<and>
      (exit_bl (blink_check s w) \<longleftrightarrow>
         exit_bl s \<or>
         (\<bar>a - b\<bar> > threshold_bl \<and> (currently_checking s \<or> b \<le> a)
          \<and> millis w - blink_check_timer s < blink_time \<and> a < start_val s))) \<and>
   (millis w - start_time < ms \<and> \<not> exit_bl s \<and> blinks_body s t w = Some (s1, t1, w2) \<longrightarrow>
      blinks_loop ms start_time s t w =
        (if exit_bl s1 then Some (s1, w2) else blinks_loop ms start_time s1 t1 w2)) \<and>
   (ms \<le> real ((now w + paced 20000 (p0 w)) div 1000) - millis w \<longrightarrow>
      (\<exists>s' w'. blinks_loop ms (millis w) blink_init (runningTimeMicros w) w = Some (s', w') \<and>
         blinks ms w = Some (exit_bl s', w') \<and>
         (exit_bl s' \<longrightarrow>
            (\<exists>s0 t0 w0 t'. \<not> exit_bl s0 \<and> millis w0 - millis w < ms \<and>
               blinks_body s0 t0 w0 = Some (s', t', w'))) \<and>
         (\<not> exit_bl s' \<longrightarrow> ms \<le> millis w' - millis w)))"
proof -
  have pass: "blinks_body s t w =
        Some (blink_check (s\<lparr>buffer_bl := [a, x]\<rparr>) w1,
              real (now (samplingRate period_gz t w1)), samplingRate period_gz t w1)"
    if "buffer_bl s = [a0, a]" "eog w = Some (x, w1)"
    using that
    by (simp add: blinks_body_def fill_def shift_push_def Let_def runningTimeMicros_def)
  have check: "(\<not> currently_checking s \<and> b - a > threshold_bl \<longrightarrow>
         blink_check s w = s\<lparr>blink_check_timer := millis w, start_val := a,
                               currently_checking := True\<rparr>) \<and>
      (currently_checking s \<and> \<bar>a - b\<bar> > threshold_bl \<and> millis w - blink_check_timer s < blink_time
         \<and> a < start_val s \<longrightarrow>
         blink_check s w = s\<lparr>currently_checking := False, exit_bl := True\<rparr>) \<and>
      (currently_checking s \<and> \<bar>a - b\<bar> > threshold_bl \<and> millis w - blink_check_timer s < blink_time
         \<and> \<not> a < start_val s \<longrightarrow>
         blink_check s w = s) \<and>
      (\<bar>a - b\<bar> \<le> threshold_bl \<longrightarrow> blink_check s w = s) \<and>
      (currently_checking s \<and> \<bar>a - b\<bar> > threshold_bl
         \<and> \<not> millis w - blink_check_timer s < blink_time \<longrightarrow>
         blink_check s w = s\<lparr>currently_checking := False\<rparr>) \<and>
      (exit_bl (blink_check s w) \<longleftrightarrow>
         exit_bl s \<or>
         (\<bar>a - b\<bar> > threshold_bl \<and> (currently_checking s \<or> b \<le> a)
          \<and> millis w - blink_check_timer s < blink_time \<and> a < start_val s))"
    if "buffer_bl s = [a, b]"
    using that by (auto simp: blink_check_def Let_def)
  have loop: "blinks_loop ms start_time s t w =
        (if exit_bl s1 then Some (s1, w2) else blinks_loop ms start_time s1 t1 w2)"
    if "millis w - start_time < ms" "\<not> exit_bl s" "blinks_body s t w = Some (s1, t1, w2)"
  proof -
    have "exit_bl s1 \<Longrightarrow> blinks_loop ms start_time s1 t1 w2 = Some (s1, w2)"
      by (subst blinks_loop.simps) simp
    with that show ?thesis by (subst blinks_loop.simps) simp
  qed
  have call: "\<exists>s' w'. blinks_loop ms (millis w) blink_init (runningTimeMicros w) w = Some (s', w') \<and>
         blinks ms w = Some (exit_bl s', w') \<and>
         (exit_bl s' \<longrightarrow>
            (\<exists>s0 t0 w0 t'. \<not> exit_bl s0 \<and> millis w0 - millis w < ms \<and>
               blinks_body s0 t0 w0 = Some (s', t', w'))) \<and>
         (\<not> exit_bl s' \<longrightarrow> ms \<le> millis w' - millis w)"
    if "ms \<le> real ((now w + paced 20000 (p0 w)) div 1000) - millis w"
  proof -
    from blinks_loop_returns [OF that, of blink_init] obtain s' w' where
      l: "blinks_loop ms (millis w) blink_init (runningTimeMicros w) w = Some (s', w')"
      by (auto simp: runningTimeMicros_def)
    have init: "\<not> exit_bl blink_init" by (simp add: blink_init_def)
    from l have "blinks ms w = Some (exit_bl s', w')" by (simp add: blinks_def)
    with l blinks_loop_stops [OF l] blinks_loop_last [OF l init] show ?thesis by blast
  qed
  from pass check loop call show ?thesis by blast
qed


text \<open>
  The recording of the witness: the samples 100, 100, 200, 90 and then 40, each conversion
  100 microseconds. The third pass starts the check from the value 100 at 40 ms, the
  fourth tests the pair 200, 90, and the fifth, begun at 80 ms, tests the pair 90, 40 and
  declares the blink; the call returns at 100 ms, for a duration of 200 ms and for one of
  100 ms alike. The states \<open>s_rise\<close> to \<open>s_flat\<close> are single pairs for the cases of the
  check: a rising pair with no check running, and, with the check of \<open>s_dip3\<close> running,
  a pair that falls on from below the start, the pair of \<open>w_dip\<close> that falls from above
  it, and a flat pair.
\<close>

definition w_blink :: world where
  "w_blink = \<lparr>now = 0,
     p0 = [(100, 100), (100, 100), (100, 200), (100, 90), (100, 40), (100, 40), (100, 40),
           (100, 40), (100, 40), (100, 40)],
     p1 = []\<rparr>"

definition s_blink4 :: blink_state where
  "s_blink4 = \<lparr>buffer_bl = [200, 90], blink_check_timer = 40, start_val = 100,
              currently_checking = True, exit_bl = False\<rparr>"

definition s_blink5 :: blink_state where
  "s_blink5 = \<lparr>buffer_bl = [90, 40], blink_check_timer = 40, start_val = 100,
              currently_checking = False, exit_bl = True\<rparr>"

definition w_blink4 :: world where
  "w_blink4 = \<lparr>now = 80000, p0 = drop 4 (p0 w_blink), p1 = []\<rparr>"

definition w_blink5 :: world where
  "w_blink5 = \<lparr>now = 100000, p0 = drop 5 (p0 w_blink), p1 = []\<rparr>"

definition s_rise :: blink_state where
  "s_rise = blink_init\<lparr>buffer_bl := [100, 200]\<rparr>"

definition s_fall_on :: blink_state where
  "s_fall_on = s_dip3\<lparr>buffer_bl := [90, 40]\<rparr>"

definition s_fall_from_above :: blink_state where
  "s_fall_from_above = s_dip3\<lparr>buffer_bl := [200, 50]\<rparr>"

definition s_flat :: blink_state where
  "s_flat = s_dip3\<lparr>buffer_bl := [50, 50]\<rparr>"

definition w_at :: "nat \<Rightarrow> world" where
  "w_at t = \<lparr>now = t, p0 = [], p1 = []\<rparr>"

theorem blinks_detection_window_witness:
  "blinks_body s_blink4 80000 w_blink4 = Some (s_blink5, 100000, w_blink5) \<and>
   blink_check s_rise (w_at 40100) = s_dip3 \<and>
   blink_check s_fall_on (w_at 80100) = s_fall_on\<lparr>currently_checking := False, exit_bl := True\<rparr> \<and>
   blink_check s_fall_from_above (w_at 60100) = s_fall_from_above \<and>
   blink_check s_flat (w_at 80100) = s_flat \<and>
   blink_check s_fall_on (w_at 400100) = s_fall_on\<lparr>currently_checking := False\<rparr> \<and>
   exit_bl (blink_check s_fall_on (w_at 80100)) \<and>
   \<not> exit_bl (blink_check s_fall_from_above (w_at 60100)) \<and>
   blinks_loop 200 0 s_blink4 80000 w_blink4 = Some (s_blink5, w_blink5) \<and>
   blinks_loop 200 0 blink_init 0 w_dip
     = blinks_loop 200 0 (blink_init\<lparr>buffer_bl := [100]\<rparr>) 20000 \<lparr>now = 20000, p0 = drop 1 (p0 w_dip), p1 = []\<rparr> \<and>
   blinks 200 w_blink = Some (True, w_blink5) \<and>
   (\<exists>s0 t0 w0 t'. \<not> exit_bl s0 \<and> millis w0 - millis w_blink < 200 \<and>
       blinks_body s0 t0 w0 = Some (s_blink5, t', w_blink5)) \<and>
   blinks 100 w_blink = Some (True, w_blink5) \<and>
   millis w_blink5 - millis w_blink = 100 \<and>
   blinks 100 w_dip = Some (False, \<lparr>now = 100000, p0 = drop 5 (p0 w_dip), p1 = []\<rparr>) \<and>
   (100::real) \<le> millis \<lparr>now = 100000, p0 = drop 5 (p0 w_dip), p1 = []\<rparr> - millis w_dip"
proof -
  have e4: "eog w_blink4 = Some (40, \<lparr>now = 80100, p0 = drop 5 (p0 w_blink), p1 = []\<rparr>)"
    by (simp add: w_blink4_def w_blink_def eog_def)
  have c5: "blink_check (s_blink4\<lparr>buffer_bl := [90, 40]\<rparr>) \<lparr>now = 80100, p0 = drop 5 (p0 w_blink), p1 = []\<rparr> = s_blink5"
    by (simp add: s_blink4_def s_blink5_def blink_check_def millis_def Let_def)
  have sr: "samplingRate period_gz 80000 \<lparr>now = 80100, p0 = drop 5 (p0 w_blink), p1 = []\<rparr> = w_blink5"
    by (simp add: samplingRate_def runningTimeMicros_def waitMicros_def w_blink5_def Let_def)
  have 1: "blinks_body s_blink4 80000 w_blink4 = Some (s_blink5, 100000, w_blink5)"
    using blinks_detection_window [where s = s_blink4 and ?a0.0 = 200 and a = 90 and w = w_blink4 and x = 40
        and ?w1.0 = "\<lparr>now = 80100, p0 = drop 5 (p0 w_blink), p1 = []\<rparr>" and t = 80000] e4 c5 sr
    by (simp add: s_blink4_def w_blink5_def)
  have 2: "blink_check s_rise (w_at 40100) = s_dip3"
    using blinks_detection_window [where s = s_rise and a = 100 and b = 200 and w = "w_at 40100"]
    by (simp add: s_rise_def s_dip3_def blink_init_def w_at_def millis_def)
  have 3: "blink_check s_fall_on (w_at 80100) = s_fall_on\<lparr>currently_checking := False, exit_bl := True\<rparr>"
    using blinks_detection_window [where s = s_fall_on and a = 90 and b = 40 and w = "w_at 80100"]
    by (simp add: s_fall_on_def s_dip3_def w_at_def millis_def)
  have 4: "blink_check s_fall_from_above (w_at 60100) = s_fall_from_above"
    using blinks_detection_window [where s = s_fall_from_above and a = 200 and b = 50 and w = "w_at 60100"]
    by (simp add: s_fall_from_above_def s_dip3_def w_at_def millis_def)
  have 5: "blink_check s_flat (w_at 80100) = s_flat"
    using blinks_detection_window [where s = s_flat and a = 50 and b = 50 and w = "w_at 80100"]
    by (simp add: s_flat_def s_dip3_def)
  have 6: "blink_check s_fall_on (w_at 400100) = s_fall_on\<lparr>currently_checking := False\<rparr>"
    using blinks_detection_window [where s = s_fall_on and a = 90 and b = 40 and w = "w_at 400100"]
    by (simp add: s_fall_on_def s_dip3_def w_at_def millis_def)
  have 7: "exit_bl (blink_check s_fall_on (w_at 80100))"
    using blinks_detection_window [where s = s_fall_on and a = 90 and b = 40 and w = "w_at 80100"]
    by (simp add: s_fall_on_def s_dip3_def w_at_def millis_def)
  have 8: "\<not> exit_bl (blink_check s_fall_from_above (w_at 60100))"
    using blinks_detection_window [where s = s_fall_from_above and a = 200 and b = 50 and w = "w_at 60100"]
    by (simp add: s_fall_from_above_def s_dip3_def w_at_def millis_def)
  have 9: "blinks_loop 200 0 s_blink4 80000 w_blink4 = Some (s_blink5, w_blink5)"
    using blinks_detection_window [where s = s_blink4 and w = w_blink4 and t = 80000 and start_time = 0 and ms = 200
        and ?s1.0 = s_blink5 and ?t1.0 = 100000 and ?w2.0 = w_blink5] 1
    by (simp add: s_blink4_def s_blink5_def w_blink4_def millis_def)
  have b1: "blinks_body blink_init 0 w_dip
              = Some (blink_init\<lparr>buffer_bl := [100]\<rparr>, 20000, \<lparr>now = 20000, p0 = drop 1 (p0 w_dip), p1 = []\<rparr>)"
    by (simp add: w_dip_def blinks_eval)
  have 10: "blinks_loop 200 0 blink_init 0 w_dip
     = blinks_loop 200 0 (blink_init\<lparr>buffer_bl := [100]\<rparr>) 20000 \<lparr>now = 20000, p0 = drop 1 (p0 w_dip), p1 = []\<rparr>"
    using blinks_detection_window [where s = blink_init and w = w_dip and t = 0 and start_time = 0 and ms = 200
        and ?s1.0 = "blink_init\<lparr>buffer_bl := [100]\<rparr>" and ?t1.0 = 20000
        and ?w2.0 = "\<lparr>now = 20000, p0 = drop 1 (p0 w_dip), p1 = []\<rparr>"] b1
    by (simp add: blink_init_def w_dip_def millis_def)
  have l: "blinks_loop 200 (millis w_blink) blink_init (runningTimeMicros w_blink) w_blink = Some (s_blink5, w_blink5)"
    by (simp add: w_blink_def s_blink5_def w_blink5_def blinks_eval)
  have h: "(200::real) \<le> real ((now w_blink + paced 20000 (p0 w_blink)) div 1000) - millis w_blink"
    by (simp add: w_blink_def paced_def millis_def)
  have 11: "blinks 200 w_blink = Some (True, w_blink5) \<and>
   (\<exists>s0 t0 w0 t'. \<not> exit_bl s0 \<and> millis w0 - millis w_blink < 200 \<and>
       blinks_body s0 t0 w0 = Some (s_blink5, t', w_blink5))"
    using blinks_detection_window [where w = w_blink and ms = 200] h l
    by (simp add: s_blink5_def)
  have l1: "blinks_loop 100 (millis w_blink) blink_init (runningTimeMicros w_blink) w_blink = Some (s_blink5, w_blink5)"
    by (simp add: w_blink_def s_blink5_def w_blink5_def blinks_eval)
  have h1: "(100::real) \<le> real ((now w_blink + paced 20000 (p0 w_blink)) div 1000) - millis w_blink"
    by (simp add: w_blink_def paced_def millis_def)
  have 13: "blinks 100 w_blink = Some (True, w_blink5) \<and> millis w_blink5 - millis w_blink = 100"
    using blinks_detection_window [where w = w_blink and ms = 100] h1 l1
    by (simp add: s_blink5_def w_blink5_def w_blink_def millis_def)
  have l2: "blinks_loop 100 (millis w_dip) blink_init (runningTimeMicros w_dip) w_dip
       = Some (s_dip3\<lparr>buffer_bl := [50, 50]\<rparr>, \<lparr>now = 100000, p0 = drop 5 (p0 w_dip), p1 = []\<rparr>)"
    by (simp add: w_dip_def s_dip3_def blinks_eval)
  have h2: "(100::real) \<le> real ((now w_dip + paced 20000 (p0 w_dip)) div 1000) - millis w_dip"
    by (simp add: w_dip_def paced_def millis_def)
  have 12: "blinks 100 w_dip = Some (False, \<lparr>now = 100000, p0 = drop 5 (p0 w_dip), p1 = []\<rparr>) \<and>
   (100::real) \<le> millis \<lparr>now = 100000, p0 = drop 5 (p0 w_dip), p1 = []\<rparr> - millis w_dip"
    using blinks_detection_window [where w = w_dip and ms = 100] h2 l2
    by (simp add: s_dip3_def)
  from 1 2 3 4 5 6 7 8 9 10 11 12 13 show ?thesis by blast
qed


section \<open>The gaze state across calls\<close>

text \<open>The same caller for \<^verbatim>\<open>gazeH\<close>.\<close>

fun gazeH_calls :: "nat \<Rightarrow> gaze_state \<Rightarrow> world \<Rightarrow> (LookingAt list \<times> gaze_state \<times> world) option" where
  "gazeH_calls 0 g w = Some ([], g, w)"
| "gazeH_calls (Suc n) g w =
     (case gazeH g w of
        None \<Rightarrow> None
      | Some (result, g', w') \<Rightarrow>
          (case gazeH_calls n g' w' of
             None \<Rightarrow> None
           | Some (results, g'', w'') \<Rightarrow> Some (result # results, g'', w'')))"

text \<open>
  The averaged signal of a recording, as the classifiers see it: the mean of the updown
  buffer after each sample that leaves it full, and the same for the leftright buffer.
\<close>

fun updown_means :: "gaze_state \<Rightarrow> real list \<Rightarrow> real list" where
  "updown_means g [] = []"
| "updown_means g (x # xs) =
     (if length (updown_buffer (stagger g x)) = buffer_size_gz
      then avgBuffer (updown_buffer (stagger g x)) # updown_means (stagger g x) xs
      else updown_means (stagger g x) xs)"

fun leftright_means :: "real list \<Rightarrow> real list \<Rightarrow> real list" where
  "leftright_means b [] = []"
| "leftright_means b (x # xs) =
     (if length (fill buffer_size_gz b x) = buffer_size_gz
      then avgBuffer (window buffer_size_gz b x) # leftright_means (window buffer_size_gz b x) xs
      else leftright_means (window buffer_size_gz b x) xs)"

text \<open>Outside the neutral band of the vertical and of the horizontal classifier.\<close>

definition outside_V :: "real \<Rightarrow> bool" where
  "outside_V m = (m < baseline * 0.60 \<or> baseline * 1.40 < m)"

definition outside_H :: "real \<Rightarrow> bool" where
  "outside_H m = (m < baseline * 0.75 \<or> baseline * 1.25 < m)"

lemma updown_means_cong:
  "blink_buffer g = blink_buffer h \<Longrightarrow> updown_buffer g = updown_buffer h
     \<Longrightarrow> updown_means g xs = updown_means h xs"
proof (induction xs arbitrary: g h)
  case Nil
  show ?case by simp
next
  case (Cons x xs)
  have b: "blink_buffer (stagger g x) = blink_buffer (stagger h x)"
    and u: "updown_buffer (stagger g x) = updown_buffer (stagger h x)"
    using Cons.prems by (simp_all add: stagger_def Let_def)
  from Cons.IH [OF b u] u show ?case by simp
qed

lemma analyseV_buffers:
  "blink_buffer (fst (analyseV (g, r))) = blink_buffer g"
  "updown_buffer (fst (analyseV (g, r))) = updown_buffer g"
  by (simp_all add: analyseV_def classifyV_def Let_def)

lemma analyseV_horizontal:
  "currently_left (fst (analyseV (g, r))) = currently_left g"
  "currently_right (fst (analyseV (g, r))) = currently_right g"
  "center_LR (fst (analyseV (g, r))) = center_LR g"
  "leftright_buffer (fst (analyseV (g, r))) = leftright_buffer g"
  by (simp_all add: analyseV_def classifyV_def Let_def)

lemma stagger_horizontal:
  "currently_left (stagger g x) = currently_left g"
  "currently_right (stagger g x) = currently_right g"
  "center_LR (stagger g x) = center_LR g"
  "leftright_buffer (stagger g x) = leftright_buffer g"
  by (simp_all add: stagger_def Let_def)

lemma stagger_lengths:
  "length (blink_buffer g) \<le> length (blink_buffer (stagger g x))"
  "length (updown_buffer g) \<le> length (updown_buffer (stagger g x))"
  by (auto simp: stagger_def Let_def)

lemma window_grows: "length b \<le> length (window n b x)"
  by (auto simp: window_def fill_def shift_push_def Let_def)

lemma stagger_latches:
  "currently_up (stagger g x) = currently_up g"
  "currently_down (stagger g x) = currently_down g"
  by (simp_all add: stagger_def Let_def)

lemma analyseV_keeps_up:
  assumes "currently_up g"
    and "length (updown_buffer g) = buffer_size_gz \<longrightarrow> outside_V (avgBuffer (updown_buffer g))"
  shows "currently_up (fst (analyseV (g, r)))"
  using assms by (auto simp: analyseV_def classifyV_def Let_def outside_V_def)

lemma analyseV_keeps_down:
  assumes "currently_down g"
    and "length (updown_buffer g) = buffer_size_gz \<longrightarrow> outside_V (avgBuffer (updown_buffer g))"
  shows "currently_down (fst (analyseV (g, r)))"
  using assms by (auto simp: analyseV_def classifyV_def Let_def outside_V_def)

lemma gazeV_body_step:
  assumes "gazeV_body gr t w = Some (gr', t', w')"
  shows "\<exists>d v. p0 w = (d, v) # p0 w' \<and> gr' = analyseV (stagger (fst gr) (real v), snd gr)"
  using assms by (auto simp: gazeV_body_def eog_def Let_def split: list.splits)

lemma readings_Cons: "readings ((d, v) # ps) = real v # readings ps"
  by (simp add: readings_def)

lemma classifyH_keeps:
  assumes "outside_H avg"
  shows "(currently_left g \<longrightarrow> currently_left (fst (classifyH avg (g, r)))) \<and>
         (currently_right g \<longrightarrow> currently_right (fst (classifyH avg (g, r))))"
  using assms by (auto simp: classifyH_def outside_H_def)

lemma classifyH_vertical:
  "currently_up (fst (classifyH avg (g, r))) = currently_up g"
  "currently_down (fst (classifyH avg (g, r))) = currently_down g"
  "center_UD (fst (classifyH avg (g, r))) = center_UD g"
  "cooldown_counter (fst (classifyH avg (g, r))) = cooldown_counter g"
  "blink_buffer (fst (classifyH avg (g, r))) = blink_buffer g"
  "updown_buffer (fst (classifyH avg (g, r))) = updown_buffer g"
  "leftright_buffer (fst (classifyH avg (g, r))) = leftright_buffer g"
  by (simp_all add: classifyH_def)

lemma gazeH_body_step:
  assumes "gazeH_body gr t w = Some (gr', t', w')"
  shows "\<exists>d v. p0 w = (d, v) # p0 w' \<and>
           gr' = (if length (fill buffer_size_gz (leftright_buffer (fst gr)) (real v)) = buffer_size_gz
                  then classifyH (avgBuffer (window buffer_size_gz (leftright_buffer (fst gr)) (real v)))
                         ((fst gr)\<lparr>leftright_buffer :=
                             window buffer_size_gz (leftright_buffer (fst gr)) (real v)\<rparr>, snd gr)
                  else ((fst gr)\<lparr>leftright_buffer :=
                             window buffer_size_gz (leftright_buffer (fst gr)) (real v)\<rparr>, snd gr))"
proof -
  from assms obtain d v ps where pw: "p0 w = (d, v) # ps"
    by (auto simp: gazeH_body_def eog_def split: list.splits)
  with assms have "p0 w' = ps"
    and "gr' = (if length (fill buffer_size_gz (leftright_buffer (fst gr)) (real v)) = buffer_size_gz
                  then classifyH (avgBuffer (window buffer_size_gz (leftright_buffer (fst gr)) (real v)))
                         ((fst gr)\<lparr>leftright_buffer :=
                             window buffer_size_gz (leftright_buffer (fst gr)) (real v)\<rparr>, snd gr)
                  else ((fst gr)\<lparr>leftright_buffer :=
                             window buffer_size_gz (leftright_buffer (fst gr)) (real v)\<rparr>, snd gr))"
    by (auto simp: gazeH_body_def eog_def Let_def window_def)
  with pw show ?thesis by blast
qed

text \<open>
  What one pass of the loop of \<^verbatim>\<open>gazeV\<close> does to the namespace variables, given the
  sample it reads, and the same for \<^verbatim>\<open>gazeH\<close>: the state part of the loop bodies.
\<close>

definition passV :: "real \<Rightarrow> gaze_state \<Rightarrow> gaze_state" where
  "passV x g = fst (analyseV (stagger g x, At_none))"

definition passH :: "real \<Rightarrow> gaze_state \<Rightarrow> gaze_state" where
  "passH x g =
     (let b = window buffer_size_gz (leftright_buffer g) x
      in if length (fill buffer_size_gz (leftright_buffer g) x) = buffer_size_gz
         then fst (classifyH (avgBuffer b) (g\<lparr>leftright_buffer := b\<rparr>, At_none))
         else g\<lparr>leftright_buffer := b\<rparr>)"

lemma readings_append: "readings (a @ b) = readings a @ readings b"
  by (simp add: readings_def)

lemma analyseV_state: "fst (analyseV (g, r)) = fst (analyseV (g, At_none))"
  by (simp add: analyseV_def classifyV_def Let_def)

lemma classifyH_state: "fst (classifyH avg (g, r)) = fst (classifyH avg (g, At_none))"
  by (simp add: classifyH_def)

lemma gazeV_body_pass:
  assumes "gazeV_body gr t w = Some (gr', t', w')"
  shows "\<exists>d v. p0 w = (d, v) # p0 w' \<and> fst gr' = passV (real v) (fst gr)"
proof -
  from gazeV_body_step [OF assms] obtain d v where
    "p0 w = (d, v) # p0 w'" "gr' = analyseV (stagger (fst gr) (real v), snd gr)" by blast
  then show ?thesis using analyseV_state [of "stagger (fst gr) (real v)" "snd gr"]
    by (auto simp: passV_def)
qed

lemma gazeV_loop_fold:
  assumes "gazeV_loop st gr t w = Some (gr', w')"
  shows "\<exists>read. p0 w = read @ p0 w' \<and> fst gr' = fold passV (readings read) (fst gr)"
  using assms
proof (induction st gr t w rule: gazeV_loop.induct)
  case (1 st gr t w)
  show ?case
  proof (cases "millis w - st < time_gz")
    case False
    with "1.prems" have "gr' = gr" "w' = w" by (subst (asm) gazeV_loop.simps, simp)+
    then have "p0 w = [] @ p0 w' \<and> fst gr' = fold passV (readings []) (fst gr)"
      by (simp add: readings_def)
    then show ?thesis by blast
  next
    case True
    with "1.prems"(1) obtain gr1 t1 w1 where
      b: "gazeV_body gr t w = Some (gr1, t1, w1)"
      and l: "gazeV_loop st gr1 t1 w1 = Some (gr', w')"
      by (subst (asm) gazeV_loop.simps) (auto split: option.splits)
    from gazeV_body_pass [OF b] obtain d v where
      pw: "p0 w = (d, v) # p0 w1" and g1: "fst gr1 = passV (real v) (fst gr)" by blast
    from "1.IH" [OF True b refl refl l] obtain read where
      r: "p0 w1 = read @ p0 w'" and f: "fst gr' = fold passV (readings read) (fst gr1)" by blast
    have "p0 w = ((d, v) # read) @ p0 w' \<and> fst gr' = fold passV (readings ((d, v) # read)) (fst gr)"
      by (simp add: pw r f g1 readings_Cons)
    then show ?thesis by blast
  qed
qed

lemma gazeV_calls_fold:
  assumes "gazeV_calls n g w = Some (results, g', w')"
  shows "\<exists>read. p0 w = read @ p0 w' \<and> g' = fold passV (readings read) g"
  using assms
proof (induction n arbitrary: g w results)
  case 0
  then have "p0 w = [] @ p0 w' \<and> g' = fold passV (readings []) g" by (simp add: readings_def)
  then show ?case by blast
next
  case (Suc n)
  from Suc.prems(1) obtain r g1 w1 rs where
    c: "gazeV g w = Some (r, g1, w1)" and cs: "gazeV_calls n g1 w1 = Some (rs, g', w')"
    by (auto split: option.splits)
  from c have l: "gazeV_loop (millis w) (g, At_none) (runningTimeMicros w) w = Some ((g1, r), w1)"
    by (auto simp: gazeV_def split: option.splits)
  from gazeV_loop_fold [OF l] obtain read1 where
    1: "p0 w = read1 @ p0 w1" "g1 = fold passV (readings read1) g" by auto
  from Suc.IH [OF cs] obtain read2 where
    2: "p0 w1 = read2 @ p0 w'" "g' = fold passV (readings read2) g1" by blast
  have "p0 w = (read1 @ read2) @ p0 w' \<and> g' = fold passV (readings (read1 @ read2)) g"
    by (simp add: 1 2 readings_append)
  then show ?case by blast
qed

lemma gazeH_body_pass:
  assumes "gazeH_body gr t w = Some (gr', t', w')"
  shows "\<exists>d v. p0 w = (d, v) # p0 w' \<and> fst gr' = passH (real v) (fst gr)"
proof -
  from gazeH_body_step [OF assms] obtain d v where
    pw: "p0 w = (d, v) # p0 w'" and
    gr': "gr' = (if length (fill buffer_size_gz (leftright_buffer (fst gr)) (real v)) = buffer_size_gz
                  then classifyH (avgBuffer (window buffer_size_gz (leftright_buffer (fst gr)) (real v)))
                         ((fst gr)\<lparr>leftright_buffer :=
                             window buffer_size_gz (leftright_buffer (fst gr)) (real v)\<rparr>, snd gr)
                  else ((fst gr)\<lparr>leftright_buffer :=
                             window buffer_size_gz (leftright_buffer (fst gr)) (real v)\<rparr>, snd gr))"
    by blast
  have "fst gr' = passH (real v) (fst gr)"
    unfolding gr' passH_def Let_def
    using classifyH_state [of _ _ "snd gr"] by simp
  with pw show ?thesis by blast
qed

lemma gazeH_loop_fold:
  assumes "gazeH_loop st gr t w = Some (gr', w')"
  shows "\<exists>read. p0 w = read @ p0 w' \<and> fst gr' = fold passH (readings read) (fst gr)"
  using assms
proof (induction st gr t w rule: gazeH_loop.induct)
  case (1 st gr t w)
  show ?case
  proof (cases "millis w - st < time_gz")
    case False
    with "1.prems" have "gr' = gr" "w' = w" by (subst (asm) gazeH_loop.simps, simp)+
    then have "p0 w = [] @ p0 w' \<and> fst gr' = fold passH (readings []) (fst gr)"
      by (simp add: readings_def)
    then show ?thesis by blast
  next
    case True
    with "1.prems"(1) obtain gr1 t1 w1 where
      b: "gazeH_body gr t w = Some (gr1, t1, w1)"
      and l: "gazeH_loop st gr1 t1 w1 = Some (gr', w')"
      by (subst (asm) gazeH_loop.simps) (auto split: option.splits)
    from gazeH_body_pass [OF b] obtain d v where
      pw: "p0 w = (d, v) # p0 w1" and g1: "fst gr1 = passH (real v) (fst gr)" by blast
    from "1.IH" [OF True b refl refl l] obtain read where
      r: "p0 w1 = read @ p0 w'" and f: "fst gr' = fold passH (readings read) (fst gr1)" by blast
    have "p0 w = ((d, v) # read) @ p0 w' \<and> fst gr' = fold passH (readings ((d, v) # read)) (fst gr)"
      by (simp add: pw r f g1 readings_Cons)
    then show ?thesis by blast
  qed
qed

lemma gazeH_calls_fold:
  assumes "gazeH_calls n g w = Some (results, g', w')"
  shows "\<exists>read. p0 w = read @ p0 w' \<and> g' = fold passH (readings read) g"
  using assms
proof (induction n arbitrary: g w results)
  case 0
  then have "p0 w = [] @ p0 w' \<and> g' = fold passH (readings []) g" by (simp add: readings_def)
  then show ?case by blast
next
  case (Suc n)
  from Suc.prems(1) obtain r g1 w1 rs where
    c: "gazeH g w = Some (r, g1, w1)" and cs: "gazeH_calls n g1 w1 = Some (rs, g', w')"
    by (auto split: option.splits)
  from c have l: "gazeH_loop (millis w) (g, At_none) (runningTimeMicros w) w = Some ((g1, r), w1)"
    by (auto simp: gazeH_def split: option.splits)
  from gazeH_loop_fold [OF l] obtain read1 where
    1: "p0 w = read1 @ p0 w1" "g1 = fold passH (readings read1) g" by auto
  from Suc.IH [OF cs] obtain read2 where
    2: "p0 w1 = read2 @ p0 w'" "g' = fold passH (readings read2) g1" by blast
  have "p0 w = (read1 @ read2) @ p0 w' \<and> g' = fold passH (readings (read1 @ read2)) g"
    by (simp add: 1 2 readings_append)
  then show ?case by blast
qed

lemma passV_buffers:
  "blink_buffer (passV x g) = blink_buffer (stagger g x)"
  "updown_buffer (passV x g) = updown_buffer (stagger g x)"
  by (simp_all add: passV_def analyseV_buffers)

lemma fold_passV_keeps:
  assumes "\<forall>m \<in> set (updown_means g xs). outside_V m"
  shows "(currently_up g \<longrightarrow> currently_up (fold passV xs g)) \<and>
         (currently_down g \<longrightarrow> currently_down (fold passV xs g)) \<and>
         currently_left (fold passV xs g) = currently_left g \<and>
         currently_right (fold passV xs g) = currently_right g \<and>
         center_LR (fold passV xs g) = center_LR g \<and>
         leftright_buffer (fold passV xs g) = leftright_buffer g \<and>
         length (blink_buffer g) \<le> length (blink_buffer (fold passV xs g)) \<and>
         length (updown_buffer g) \<le> length (updown_buffer (fold passV xs g))"
  using assms
proof (induction xs arbitrary: g)
  case Nil
  show ?case by simp
next
  case (Cons x xs)
  let ?h = "stagger g x"
  have means: "updown_means (passV x g) xs = updown_means ?h xs"
    by (rule updown_means_cong) (simp_all add: passV_buffers)
  from Cons.prems have
    here: "length (updown_buffer ?h) = buffer_size_gz \<longrightarrow> outside_V (avgBuffer (updown_buffer ?h))"
    and rest: "\<forall>m \<in> set (updown_means ?h xs). outside_V m"
    by (auto split: if_splits)
  from rest means have "\<forall>m \<in> set (updown_means (passV x g) xs). outside_V m" by simp
  note IH = Cons.IH [OF this]
  have up: "currently_up g \<Longrightarrow> currently_up (passV x g)"
    unfolding passV_def by (rule analyseV_keeps_up) (simp_all add: stagger_latches here)
  have down: "currently_down g \<Longrightarrow> currently_down (passV x g)"
    unfolding passV_def by (rule analyseV_keeps_down) (simp_all add: stagger_latches here)
  have hor: "currently_left (passV x g) = currently_left g"
    "currently_right (passV x g) = currently_right g"
    "center_LR (passV x g) = center_LR g"
    "leftright_buffer (passV x g) = leftright_buffer g"
    by (simp_all add: passV_def analyseV_horizontal stagger_horizontal)
  have len: "length (blink_buffer g) \<le> length (blink_buffer (passV x g))"
    "length (updown_buffer g) \<le> length (updown_buffer (passV x g))"
    by (simp_all add: passV_buffers stagger_lengths)
  from IH up down hor len show ?case by auto
qed

lemma passH_buffer: "leftright_buffer (passH x g) = window buffer_size_gz (leftright_buffer g) x"
  by (simp add: passH_def Let_def classifyH_vertical)

lemma fold_passH_keeps:
  assumes "\<forall>m \<in> set (leftright_means (leftright_buffer g) xs). outside_H m"
  shows "(currently_left g \<longrightarrow> currently_left (fold passH xs g)) \<and>
         (currently_right g \<longrightarrow> currently_right (fold passH xs g)) \<and>
         currently_up (fold passH xs g) = currently_up g \<and>
         currently_down (fold passH xs g) = currently_down g \<and>
         center_UD (fold passH xs g) = center_UD g \<and>
         cooldown_counter (fold passH xs g) = cooldown_counter g \<and>
         blink_buffer (fold passH xs g) = blink_buffer g \<and>
         updown_buffer (fold passH xs g) = updown_buffer g \<and>
         length (leftright_buffer g) \<le> length (leftright_buffer (fold passH xs g))"
  using assms
proof (induction xs arbitrary: g)
  case Nil
  show ?case by simp
next
  case (Cons x xs)
  let ?b = "window buffer_size_gz (leftright_buffer g) x"
  from Cons.prems have
    here: "length (fill buffer_size_gz (leftright_buffer g) x) = buffer_size_gz
             \<longrightarrow> outside_H (avgBuffer ?b)"
    and rest: "\<forall>m \<in> set (leftright_means ?b xs). outside_H m"
    by (auto split: if_splits)
  note IH = Cons.IH [of "passH x g", unfolded passH_buffer, OF rest]
  have keep: "(currently_left g \<longrightarrow> currently_left (passH x g)) \<and>
              (currently_right g \<longrightarrow> currently_right (passH x g))"
    using here classifyH_keeps [of "avgBuffer ?b" "g\<lparr>leftright_buffer := ?b\<rparr>" At_none]
    by (auto simp: passH_def Let_def)
  have ver: "currently_up (passH x g) = currently_up g"
    "currently_down (passH x g) = currently_down g"
    "center_UD (passH x g) = center_UD g"
    "cooldown_counter (passH x g) = cooldown_counter g"
    "blink_buffer (passH x g) = blink_buffer g"
    "updown_buffer (passH x g) = updown_buffer g"
    by (simp_all add: passH_def Let_def classifyH_vertical)
  have len: "length (leftright_buffer g) \<le> length ?b"
    by (rule window_grows)
  from IH len have len': "length (leftright_buffer g)
      \<le> length (leftright_buffer (fold passH xs (passH x g)))" by linarith
  from IH keep ver len' show ?case by simp
qed

lemma passV_neutral:
  assumes "length (updown_buffer (stagger g x)) = buffer_size_gz"
    and "\<not> js_less (calculateSlope (take buffer_size_gz (blink_buffer (stagger g x)))) (- 75)"
    and "cooldown_period \<le> cooldown_counter g"
    and "\<not> outside_V (avgBuffer (updown_buffer (stagger g x)))"
  shows "passV x g = (if center_UD g
                      then (stagger g x)\<lparr>currently_up := False, currently_down := False\<rparr>
                      else stagger g x)"
proof -
  have s: "cooldown_counter (stagger g x) = cooldown_counter g" "center_UD (stagger g x) = center_UD g"
    by (simp_all add: stagger_def Let_def)
  from assms s show ?thesis
    by (simp add: passV_def analyseV_def classifyV_def Let_def outside_V_def)
qed

lemma passH_neutral:
  assumes "length (fill buffer_size_gz (leftright_buffer g) x) = buffer_size_gz"
    and "\<not> outside_H (avgBuffer (window buffer_size_gz (leftright_buffer g) x))"
  shows "passH x g =
           (if center_LR g
            then g\<lparr>leftright_buffer := window buffer_size_gz (leftright_buffer g) x,
                   currently_left := False, currently_right := False\<rparr>
            else g\<lparr>leftright_buffer := window buffer_size_gz (leftright_buffer g) x\<rparr>)"
  using assms by (simp add: passH_def classifyH_def Let_def outside_H_def)

text \<open>
  Claim C7. The latches, the centre flags, the cooldown counter and the buffers are
  arguments and results of every call, and a call starts from what the call before left.
  After any number of calls of \<^verbatim>\<open>gazeV\<close> in a row the state is the state at the first
  entry advanced by one pass for each sample read, in order: no variable is set afresh
  when a call is entered. Over calls in which the averaged signal never lies in the
  neutral band, a latch (\<open>currently_up\<close> or \<open>currently_down\<close>) that is set at the first
  entry is still set after the last call, the two buffers never get shorter, and the
  horizontal latches, flag and buffer are left as they were. A pass whose averaged signal
  lies in the neutral band, with the updown buffer full, no blink slope and the cooldown
  over, clears both latches when \<open>center_UD\<close> is set and changes nothing but the buffers
  when it is not. The same holds for \<^verbatim>\<open>gazeH\<close> with \<open>currently_left\<close>,
  \<open>currently_right\<close>, \<open>center_LR\<close> and its buffer, and there the vertical latches, flag,
  cooldown counter and buffers are left as they were.
\<close>

theorem gaze_state_persists:
  "(gazeV_calls n g w = Some (results, g', w') \<longrightarrow>
      (\<exists>read. p0 w = read @ p0 w' \<and> g' = fold passV (readings read) g)) \<and>
   (gazeV_calls n g w = Some (results, g', w') \<and> p0 w = read @ p0 w' \<and>
      (\<forall>m \<in> set (updown_means g (readings read)). outside_V m) \<longrightarrow>
        (currently_up g \<longrightarrow> currently_up g') \<and> (currently_down g \<longrightarrow> currently_down g') \<and>
        currently_left g' = currently_left g \<and> currently_right g' = currently_right g \<and>
        center_LR g' = center_LR g \<and> leftright_buffer g' = leftright_buffer g \<and>
        length (blink_buffer g) \<le> length (blink_buffer g') \<and>
        length (updown_buffer g) \<le> length (updown_buffer g')) \<and>
   (length (updown_buffer (stagger g x)) = buffer_size_gz \<and>
      \<not> js_less (calculateSlope (take buffer_size_gz (blink_buffer (stagger g x)))) (- 75) \<and>
      cooldown_period \<le> cooldown_counter g \<and>
      \<not> outside_V (avgBuffer (updown_buffer (stagger g x))) \<longrightarrow>
        passV x g = (if center_UD g
                     then (stagger g x)\<lparr>currently_up := False, currently_down := False\<rparr>
                     else stagger g x)) \<and>
   (gazeH_calls n g w = Some (results, g', w') \<longrightarrow>
      (\<exists>read. p0 w = read @ p0 w' \<and> g' = fold passH (readings read) g)) \<and>
   (gazeH_calls n g w = Some (results, g', w') \<and> p0 w = read @ p0 w' \<and>
      (\<forall>m \<in> set (leftright_means (leftright_buffer g) (readings read)). outside_H m) \<longrightarrow>
        (currently_left g \<longrightarrow> currently_left g') \<and> (currently_right g \<longrightarrow> currently_right g') \<and>
        currently_up g' = currently_up g \<and> currently_down g' = currently_down g \<and>
        center_UD g' = center_UD g \<and> cooldown_counter g' = cooldown_counter g \<and>
        blink_buffer g' = blink_buffer g \<and> updown_buffer g' = updown_buffer g \<and>
        length (leftright_buffer g) \<le> length (leftright_buffer g')) \<and>
   (length (fill buffer_size_gz (leftright_buffer g) x) = buffer_size_gz \<and>
      \<not> outside_H (avgBuffer (window buffer_size_gz (leftright_buffer g) x)) \<longrightarrow>
        passH x g =
          (if center_LR g
           then g\<lparr>leftright_buffer := window buffer_size_gz (leftright_buffer g) x,
                  currently_left := False, currently_right := False\<rparr>
           else g\<lparr>leftright_buffer := window buffer_size_gz (leftright_buffer g) x\<rparr>))"
proof -
  have V2: "(currently_up g \<longrightarrow> currently_up g') \<and> (currently_down g \<longrightarrow> currently_down g') \<and>
        currently_left g' = currently_left g \<and> currently_right g' = currently_right g \<and>
        center_LR g' = center_LR g \<and> leftright_buffer g' = leftright_buffer g \<and>
        length (blink_buffer g) \<le> length (blink_buffer g') \<and>
        length (updown_buffer g) \<le> length (updown_buffer g')"
    if c: "gazeV_calls n g w = Some (results, g', w')" and r: "p0 w = read @ p0 w'"
      and m: "\<forall>m \<in> set (updown_means g (readings read)). outside_V m"
  proof -
    from gazeV_calls_fold [OF c] obtain read' where
      "p0 w = read' @ p0 w'" and f: "g' = fold passV (readings read') g" by blast
    with r have "read' = read" by simp
    with f fold_passV_keeps [OF m] show ?thesis by simp
  qed
  have H2: "(currently_left g \<longrightarrow> currently_left g') \<and> (currently_right g \<longrightarrow> currently_right g') \<and>
        currently_up g' = currently_up g \<and> currently_down g' = currently_down g \<and>
        center_UD g' = center_UD g \<and> cooldown_counter g' = cooldown_counter g \<and>
        blink_buffer g' = blink_buffer g \<and> updown_buffer g' = updown_buffer g \<and>
        length (leftright_buffer g) \<le> length (leftright_buffer g')"
    if c: "gazeH_calls n g w = Some (results, g', w')" and r: "p0 w = read @ p0 w'"
      and m: "\<forall>m \<in> set (leftright_means (leftright_buffer g) (readings read)). outside_H m"
  proof -
    from gazeH_calls_fold [OF c] obtain read' where
      "p0 w = read' @ p0 w'" and f: "g' = fold passH (readings read') g" by blast
    with r have "read' = read" by simp
    with f fold_passH_keeps [OF m] show ?thesis by simp
  qed
  from gazeV_calls_fold [of n g w results g' w'] gazeH_calls_fold [of n g w results g' w']
    V2 H2 passV_neutral [of g x] passH_neutral [of g x]
  show ?thesis by blast
qed

text \<open>
  Two sessions for the witness, each conversion 100 microseconds, so that a call reads 25
  samples (\<open>look v\<close> is the signal at \<open>v\<close> for one call). In \<open>w_rel\<close> the eyes look up
  for three calls of \<^verbatim>\<open>gazeV\<close> (up is latched in the third), down for four (the fall is
  taken for a blink, the cooldown runs over the fourth and fifth call, and \<open>center_UD\<close>
  is set in the fifth) and straight ahead for one: \<open>currently_up\<close> stays set from the
  third call into the eighth, where the 21st pass, at a mean of 275, clears it. In
  \<open>w_mix\<close> three calls of \<^verbatim>\<open>gazeV\<close> are followed by five of \<^verbatim>\<open>gazeH\<close>: left is latched
  in the first of them, \<open>center_LR\<close> is set in the second, and the seventh pass of the
  fifth, at a mean of 345, clears the latch; the vertical state is that of the third call
  throughout.
\<close>

lemmas gazeV_eval2 =
  gazeV_eval calculateSlope_window dbl_def binade_def exp_up.simps exp_down.simps pow2_def
  round_even_def passV_def

lemmas gazeH_eval =
  replicate_numeral gazeH_def gazeH_loop.simps gazeH_body_def classifyH_def avgBuffer_def
  fill_def shift_push_def window_def eog_def millis_def runningTimeMicros_def samplingRate_def
  waitMicros_def Let_def gaze_init_def passH_def

definition look :: "nat \<Rightarrow> (nat \<times> nat) list" where
  "look v = replicate 25 (100, v)"

definition w_rel :: world where
  "w_rel = \<lparr>now = 0,
     p0 = look 700 @ look 700 @ look 700 @ look 100 @ look 100 @ look 100 @ look 100 @ look 450,
     p1 = []\<rparr>"

definition g_rel4 :: gaze_state where
  "g_rel4 = gaze_init\<lparr>currently_up := True, cooldown_counter := 13,
              blink_buffer := replicate 16 100, updown_buffer := 700 # replicate 9 100\<rparr>"

definition g_rel5 :: gaze_state where
  "g_rel5 = gaze_init\<lparr>currently_up := True, center_UD := True, cooldown_counter := 26,
              blink_buffer := replicate 16 100, updown_buffer := replicate 10 100\<rparr>"

definition g_rel_pre :: gaze_state where
  "g_rel_pre = gaze_init\<lparr>currently_up := True, center_UD := True, cooldown_counter := 26,
              blink_buffer := replicate 16 450,
              updown_buffer := replicate 6 100 @ replicate 4 450\<rparr>"

definition g_rel8 :: gaze_state where
  "g_rel8 = gaze_init\<lparr>center_UD := True, cooldown_counter := 26,
              blink_buffer := replicate 16 450, updown_buffer := 100 # replicate 9 450\<rparr>"

lemma look_up_1:
  "gazeV gaze_init \<lparr>now = 0, p0 = look 700 @ rest, p1 = []\<rparr>
     = Some (At_none, g_stare1, \<lparr>now = 500000, p0 = rest, p1 = []\<rparr>)"
  by (simp add: look_def g_stare1_def gazeV_eval)

lemma look_up_2:
  "gazeV g_stare1 \<lparr>now = 500000, p0 = look 700 @ rest, p1 = []\<rparr>
     = Some (At_none, g_stare2, \<lparr>now = 1000000, p0 = rest, p1 = []\<rparr>)"
  by (simp add: look_def g_stare1_def g_stare2_def gazeV_eval)

lemma look_up_3:
  "gazeV g_stare2 \<lparr>now = 1000000, p0 = look 700 @ rest, p1 = []\<rparr>
     = Some (At_up, g_latched, \<lparr>now = 1500000, p0 = rest, p1 = []\<rparr>)"
  by (simp add: look_def g_stare2_def g_latched_def gazeV_eval)

lemma look_down_4:
  "gazeV g_latched \<lparr>now = 1500000, p0 = look 100 @ rest, p1 = []\<rparr>
     = Some (At_blink, g_rel4, \<lparr>now = 2000000, p0 = rest, p1 = []\<rparr>)"
  by (simp add: look_def g_latched_def g_rel4_def gazeV_eval2)

lemma look_down_5:
  "gazeV g_rel4 \<lparr>now = 2000000, p0 = look 100 @ rest, p1 = []\<rparr>
     = Some (At_none, g_rel5, \<lparr>now = 2500000, p0 = rest, p1 = []\<rparr>)"
  by (simp add: look_def g_rel4_def g_rel5_def gazeV_eval2)

lemma look_down_6:
  "gazeV g_rel5 \<lparr>now = 2500000, p0 = look 100 @ rest, p1 = []\<rparr>
     = Some (At_none, g_rel5, \<lparr>now = 3000000, p0 = rest, p1 = []\<rparr>)"
  by (simp add: look_def g_rel5_def gazeV_eval2)

lemma look_down_7:
  "gazeV g_rel5 \<lparr>now = 3000000, p0 = look 100 @ rest, p1 = []\<rparr>
     = Some (At_none, g_rel5, \<lparr>now = 3500000, p0 = rest, p1 = []\<rparr>)"
  by (simp add: look_def g_rel5_def gazeV_eval2)

lemma look_ahead_8:
  "gazeV g_rel5 \<lparr>now = 3500000, p0 = look 450 @ rest, p1 = []\<rparr>
     = Some (At_none, g_rel8, \<lparr>now = 4000000, p0 = rest, p1 = []\<rparr>)"
  by (simp add: look_def g_rel5_def g_rel8_def gazeV_eval2)

lemma look_ahead_passes: "fold passV (replicate 20 450) g_rel5 = g_rel_pre"
  by (simp add: g_rel5_def g_rel_pre_def gazeV_eval2)

lemma means_down:
  "updown_means g_rel4 (readings (look 100 @ look 100)) = replicate 50 100"
  by (simp add: look_def g_rel4_def gaze_init_def readings_def stagger_def avgBuffer_def
      Let_def replicate_numeral)


definition w_mix :: world where
  "w_mix = \<lparr>now = 0,
     p0 = look 700 @ look 700 @ look 700 @ look 700 @ look 100 @ look 100 @ look 100 @ look 450,
     p1 = []\<rparr>"

definition h_left :: gaze_state where
  "h_left = g_latched\<lparr>currently_left := True, leftright_buffer := replicate 10 700\<rparr>"

definition h_crossed :: gaze_state where
  "h_crossed = g_latched\<lparr>currently_left := True, center_LR := True,
                 leftright_buffer := replicate 10 100\<rparr>"

definition h_pre :: gaze_state where
  "h_pre = g_latched\<lparr>currently_left := True, center_LR := True,
             leftright_buffer := replicate 4 100 @ replicate 6 450\<rparr>"

definition h_released :: gaze_state where
  "h_released = g_latched\<lparr>center_LR := True, leftright_buffer := replicate 10 450\<rparr>"

lemma look_left_4:
  "gazeH g_latched \<lparr>now = 1500000, p0 = look 700 @ rest, p1 = []\<rparr>
     = Some (At_left, h_left, \<lparr>now = 2000000, p0 = rest, p1 = []\<rparr>)"
  by (simp add: look_def g_latched_def h_left_def gazeH_eval)

lemma look_right_5:
  "gazeH h_left \<lparr>now = 2000000, p0 = look 100 @ rest, p1 = []\<rparr>
     = Some (At_left, h_crossed, \<lparr>now = 2500000, p0 = rest, p1 = []\<rparr>)"
  by (simp add: look_def g_latched_def h_left_def h_crossed_def gazeH_eval)

lemma look_right_6:
  "gazeH h_crossed \<lparr>now = 2500000, p0 = look 100 @ rest, p1 = []\<rparr>
     = Some (At_none, h_crossed, \<lparr>now = 3000000, p0 = rest, p1 = []\<rparr>)"
  by (simp add: look_def g_latched_def h_crossed_def gazeH_eval)

lemma look_right_7:
  "gazeH h_crossed \<lparr>now = 3000000, p0 = look 100 @ rest, p1 = []\<rparr>
     = Some (At_none, h_crossed, \<lparr>now = 3500000, p0 = rest, p1 = []\<rparr>)"
  by (simp add: look_def g_latched_def h_crossed_def gazeH_eval)

lemma look_centre_8:
  "gazeH h_crossed \<lparr>now = 3500000, p0 = look 450 @ rest, p1 = []\<rparr>
     = Some (At_none, h_released, \<lparr>now = 4000000, p0 = rest, p1 = []\<rparr>)"
  by (simp add: look_def g_latched_def h_crossed_def h_released_def gazeH_eval)

lemma look_centre_passes: "fold passH (replicate 6 450) h_crossed = h_pre"
  by (simp add: g_latched_def h_crossed_def h_pre_def gazeH_eval)

lemma means_right:
  "leftright_means (leftright_buffer h_crossed) (readings (look 100 @ look 100)) = replicate 50 100"
  by (simp add: look_def h_crossed_def g_latched_def gaze_init_def readings_def avgBuffer_def
      fill_def window_def shift_push_def Let_def replicate_numeral)

lemma gazeH_calls_numeral:
  "gazeH_calls (numeral k) g w =
     (case gazeH g w of
        None \<Rightarrow> None
      | Some (result, g', w') \<Rightarrow>
          (case gazeH_calls (pred_numeral k) g' w' of
             None \<Rightarrow> None
           | Some (results, g'', w'') \<Rightarrow> Some (result # results, g'', w'')))"
  by (simp add: numeral_eq_Suc)

lemmas look_calls =
  gazeV_calls_numeral gazeH_calls_numeral look_up_1 look_up_2 look_up_3 look_down_4 look_down_5
  look_down_6 look_down_7 look_ahead_8 look_left_4 look_right_5 look_right_6 look_right_7
  look_centre_8

lemma rel_calls_8:
  "gazeV_calls 8 gaze_init w_rel
     = Some ([At_none, At_none, At_up, At_blink, At_none, At_none, At_none, At_none], g_rel8,
             \<lparr>now = 4000000, p0 = [], p1 = []\<rparr>)"
  using look_ahead_8 [of "[]"] by (simp add: w_rel_def look_calls)

lemma rel_calls_4:
  "gazeV_calls 4 gaze_init w_rel
     = Some ([At_none, At_none, At_up, At_blink], g_rel4,
             \<lparr>now = 2000000, p0 = look 100 @ look 100 @ look 100 @ look 450, p1 = []\<rparr>)"
  by (simp add: w_rel_def look_calls)

lemma rel_calls_4_6:
  "gazeV_calls 2 g_rel4 \<lparr>now = 2000000, p0 = look 100 @ look 100 @ look 100 @ look 450, p1 = []\<rparr>
     = Some ([At_none, At_none], g_rel5, \<lparr>now = 3000000, p0 = look 100 @ look 450, p1 = []\<rparr>)"
  by (simp add: look_calls)

lemma mix_calls_3:
  "gazeV_calls 3 gaze_init w_mix
     = Some ([At_none, At_none, At_up], g_latched,
             \<lparr>now = 1500000, p0 = look 700 @ look 100 @ look 100 @ look 100 @ look 450, p1 = []\<rparr>)"
  by (simp add: w_mix_def look_calls)

lemma mix_calls_3_8:
  "gazeH_calls 5 g_latched
       \<lparr>now = 1500000, p0 = look 700 @ look 100 @ look 100 @ look 100 @ look 450, p1 = []\<rparr>
     = Some ([At_left, At_left, At_none, At_none, At_none], h_released,
             \<lparr>now = 4000000, p0 = [], p1 = []\<rparr>)"
  using look_centre_8 [of "[]"] by (simp add: look_calls)

lemma mix_calls_5_7:
  "gazeH_calls 2 h_crossed \<lparr>now = 2500000, p0 = look 100 @ look 100 @ look 450, p1 = []\<rparr>
     = Some ([At_none, At_none], h_crossed, \<lparr>now = 3500000, p0 = look 450, p1 = []\<rparr>)"
  by (simp add: look_calls)

definition w_rel4 :: world where
  "w_rel4 = \<lparr>now = 2000000, p0 = look 100 @ look 100 @ look 100 @ look 450, p1 = []\<rparr>"

definition w_rel6 :: world where
  "w_rel6 = \<lparr>now = 3000000, p0 = look 100 @ look 450, p1 = []\<rparr>"

definition w_mix3 :: world where
  "w_mix3 = \<lparr>now = 1500000, p0 = look 700 @ look 100 @ look 100 @ look 100 @ look 450, p1 = []\<rparr>"

definition w_mix5 :: world where
  "w_mix5 = \<lparr>now = 2500000, p0 = look 100 @ look 100 @ look 450, p1 = []\<rparr>"

definition w_mix7 :: world where
  "w_mix7 = \<lparr>now = 3500000, p0 = look 450, p1 = []\<rparr>"

definition w_end :: world where
  "w_end = \<lparr>now = 4000000, p0 = [], p1 = []\<rparr>"

theorem gaze_state_persists_witness:
  "gazeV_calls 8 gaze_init w_rel
     = Some ([At_none, At_none, At_up, At_blink, At_none, At_none, At_none, At_none], g_rel8, w_end) \<and>
   g_rel8 = fold passV (readings (p0 w_rel)) gaze_init \<and>
   gazeV_calls 4 gaze_init w_rel = Some ([At_none, At_none, At_up, At_blink], g_rel4, w_rel4) \<and>
   gazeV_calls 2 g_rel4 w_rel4 = Some ([At_none, At_none], g_rel5, w_rel6) \<and>
   p0 w_rel4 = (look 100 @ look 100) @ p0 w_rel6 \<and>
   updown_means g_rel4 (readings (look 100 @ look 100)) = replicate 50 100 \<and>
   outside_V 100 \<and> currently_up g_rel4 \<and> currently_up g_rel5 \<and>
   fold passV (replicate 20 450) g_rel5 = g_rel_pre \<and>
   avgBuffer (updown_buffer (stagger g_rel_pre 450)) = 275 \<and> \<not> outside_V 275 \<and>
   passV 450 g_rel_pre
     = g_rel_pre\<lparr>currently_up := False, updown_buffer := replicate 5 100 @ replicate 5 450\<rparr> \<and>
   gazeV_calls 3 gaze_init w_mix = Some ([At_none, At_none, At_up], g_latched, w_mix3) \<and>
   gazeH_calls 5 g_latched w_mix3
     = Some ([At_left, At_left, At_none, At_none, At_none], h_released, w_end) \<and>
   h_released = fold passH (readings (p0 w_mix3)) g_latched \<and>
   gazeH_calls 2 g_latched w_mix3 = Some ([At_left, At_left], h_crossed, w_mix5) \<and>
   gazeH_calls 2 h_crossed w_mix5 = Some ([At_none, At_none], h_crossed, w_mix7) \<and>
   p0 w_mix5 = (look 100 @ look 100) @ p0 w_mix7 \<and>
   leftright_means (leftright_buffer h_crossed) (readings (look 100 @ look 100)) = replicate 50 100 \<and>
   outside_H 100 \<and> currently_left h_crossed \<and> currently_up h_crossed \<and>
   cooldown_counter h_crossed = 26 \<and>
   fold passH (replicate 6 450) h_crossed = h_pre \<and>
   avgBuffer (window buffer_size_gz (leftright_buffer h_pre) 450) = 345 \<and> \<not> outside_H 345 \<and>
   passH 450 h_pre
     = h_pre\<lparr>leftright_buffer := replicate 3 100 @ replicate 7 450, currently_left := False\<rparr>"
proof -
  note V1 = gaze_state_persists [THEN conjunct1, rule_format]
  note V2 = gaze_state_persists [THEN conjunct2, THEN conjunct1, rule_format]
  note V3 = gaze_state_persists [THEN conjunct2, THEN conjunct2, THEN conjunct1, rule_format]
  note H1 = gaze_state_persists [THEN conjunct2, THEN conjunct2, THEN conjunct2, THEN conjunct1,
      rule_format]
  note H2 = gaze_state_persists [THEN conjunct2, THEN conjunct2, THEN conjunct2, THEN conjunct2,
      THEN conjunct1, rule_format]
  note H3 = gaze_state_persists [THEN conjunct2, THEN conjunct2, THEN conjunct2, THEN conjunct2,
      THEN conjunct2, rule_format]
  have c8: "gazeV_calls 8 gaze_init w_rel
     = Some ([At_none, At_none, At_up, At_blink, At_none, At_none, At_none, At_none], g_rel8, w_end)"
    unfolding w_end_def by (rule rel_calls_8)
  from V1 [OF c8] have f8: "g_rel8 = fold passV (readings (p0 w_rel)) gaze_init"
    by (auto simp: w_end_def)
  have c4: "gazeV_calls 4 gaze_init w_rel = Some ([At_none, At_none, At_up, At_blink], g_rel4, w_rel4)"
    unfolding w_rel4_def by (rule rel_calls_4)
  have c46: "gazeV_calls 2 g_rel4 w_rel4 = Some ([At_none, At_none], g_rel5, w_rel6)"
    unfolding w_rel4_def w_rel6_def by (rule rel_calls_4_6)
  have r46: "p0 w_rel4 = (look 100 @ look 100) @ p0 w_rel6" by (simp add: w_rel4_def w_rel6_def)
  have oV: "outside_V 100" "\<not> outside_V 275" by (simp_all add: outside_V_def)
  have oH: "outside_H 100" "\<not> outside_H 345" by (simp_all add: outside_H_def)
  have mV: "\<forall>m \<in> set (updown_means g_rel4 (readings (look 100 @ look 100))). outside_V m"
    using oV by (simp add: means_down)
  have up4: "currently_up g_rel4" by (simp add: g_rel4_def)
  from V2 [of 2 g_rel4 w_rel4 "[At_none, At_none]" g_rel5 w_rel6 "look 100 @ look 100"] c46 r46 mV up4
  have up5: "currently_up g_rel5" by blast
  have sV: "stagger g_rel_pre 450
      = g_rel_pre\<lparr>updown_buffer := replicate 5 100 @ replicate 5 450\<rparr>"
    by (simp add: g_rel_pre_def gaze_init_def stagger_def Let_def replicate_numeral)
  have avgV: "avgBuffer (updown_buffer (stagger g_rel_pre 450)) = 275"
    unfolding sV by (simp add: g_rel_pre_def avgBuffer_def replicate_numeral)
  have slope: "\<not> js_less (calculateSlope (take buffer_size_gz (blink_buffer (stagger g_rel_pre 450)))) (- 75)"
    unfolding sV
    by (simp add: g_rel_pre_def gaze_init_def replicate_numeral
        calculateSlope_window dbl_def binade_def exp_up.simps exp_down.simps pow2_def round_even_def
        Let_def)
  have preV: "length (updown_buffer (stagger g_rel_pre 450)) = buffer_size_gz \<and>
      \<not> js_less (calculateSlope (take buffer_size_gz (blink_buffer (stagger g_rel_pre 450)))) (- 75) \<and>
      cooldown_period \<le> cooldown_counter g_rel_pre \<and>
      \<not> outside_V (avgBuffer (updown_buffer (stagger g_rel_pre 450)))"
    using slope oV(2) unfolding avgV by (simp add: sV) (simp add: g_rel_pre_def)
  from V3 [OF preV] have relV: "passV 450 g_rel_pre
     = g_rel_pre\<lparr>currently_up := False, updown_buffer := replicate 5 100 @ replicate 5 450\<rparr>"
    unfolding sV by (simp add: g_rel_pre_def gaze_init_def)
  have m3: "gazeV_calls 3 gaze_init w_mix = Some ([At_none, At_none, At_up], g_latched, w_mix3)"
    unfolding w_mix3_def by (rule mix_calls_3)
  have m38: "gazeH_calls 5 g_latched w_mix3
     = Some ([At_left, At_left, At_none, At_none, At_none], h_released, w_end)"
    unfolding w_mix3_def w_end_def by (rule mix_calls_3_8)
  from H1 [OF m38] have fH: "h_released = fold passH (readings (p0 w_mix3)) g_latched"
    by (auto simp: w_end_def)
  have m35: "gazeH_calls 2 g_latched w_mix3 = Some ([At_left, At_left], h_crossed, w_mix5)"
    by (simp add: w_mix3_def w_mix5_def look_calls)
  have m57: "gazeH_calls 2 h_crossed w_mix5 = Some ([At_none, At_none], h_crossed, w_mix7)"
    unfolding w_mix5_def w_mix7_def by (rule mix_calls_5_7)
  have r57: "p0 w_mix5 = (look 100 @ look 100) @ p0 w_mix7" by (simp add: w_mix5_def w_mix7_def)
  have mH: "\<forall>m \<in> set (leftright_means (leftright_buffer h_crossed) (readings (look 100 @ look 100))).
              outside_H m"
    using oH by (simp add: means_right)
  from H2 [of 2 h_crossed w_mix5 "[At_none, At_none]" h_crossed w_mix7 "look 100 @ look 100"]
    m57 r57 mH
  have keepH: "(currently_left h_crossed \<longrightarrow> currently_left h_crossed) \<and>
      cooldown_counter h_crossed = cooldown_counter h_crossed" by blast
  have left: "currently_left h_crossed" "currently_up h_crossed" "cooldown_counter h_crossed = 26"
    using keepH by (simp_all add: h_crossed_def g_latched_def)
  have wH: "window buffer_size_gz (leftright_buffer h_pre) 450 = replicate 3 100 @ replicate 7 450"
    by (simp add: h_pre_def window_def fill_def shift_push_def Let_def replicate_numeral)
  have avgH: "avgBuffer (window buffer_size_gz (leftright_buffer h_pre) 450) = 345"
    unfolding wH by (simp add: avgBuffer_def replicate_numeral)
  have preH: "length (fill buffer_size_gz (leftright_buffer h_pre) 450) = buffer_size_gz \<and>
      \<not> outside_H (avgBuffer (window buffer_size_gz (leftright_buffer h_pre) 450))"
    using oH(2) unfolding avgH by (simp add: h_pre_def fill_def)
  from H3 [OF preH] have relH: "passH 450 h_pre
     = h_pre\<lparr>leftright_buffer := replicate 3 100 @ replicate 7 450, currently_left := False\<rparr>"
    unfolding wH by (simp add: h_pre_def g_latched_def gaze_init_def)
  from c8 f8 c4 c46 r46 means_down oV up4 up5 look_ahead_passes avgV relV m3 m38 fH m35 m57 r57
    means_right oH left look_centre_passes avgH relH
  show ?thesis by simp
qed

section \<open>Properties of heartBeat\<close>













text \<open>
  One spike of 500 among the six samples that fill the buffer: the first pass sees a beat,
  150 ms after the start because of the icon. And a flat recording.
\<close>

definition w_beat :: world where
  "w_beat = \<lparr>now = 0, p0 = [],
     p1 = [(100, 0), (100, 0), (100, 0), (100, 500), (100, 0), (100, 0), (100, 0)]\<rparr>"


definition w_flat :: world where
  "w_flat = \<lparr>now = 0, p0 = [],
     p1 = [(100, 512), (100, 512), (100, 512), (100, 512), (100, 512), (100, 512), (100, 512),
           (100, 512)]\<rparr>"

lemma prefill_numeral:
  "prefill (numeral k) b w =
     (case ecg w of None \<Rightarrow> None | Some (v, w') \<Rightarrow> prefill (pred_numeral k) (b @ [v]) w')"
  by (simp add: numeral_eq_Suc)

lemmas heartBeat_eval =
  heartBeat_def heartBeat_run_def heartBeat_loop.simps heartBeat_body_def detect_beat_def
  buffer_min_max_def upt_rec heart_init_def bpm_def js_div_def beat_unit_def largeBox_def smallBox_def
  showIcon_def pause_ms_def shift_push_def ecg_def millis_def runningTimeMicros_def
  samplingRate_def waitMicros_def Let_def prefill_numeral


lemma heartBeat_examples:
  "heartBeat 5 w_beat = Some (Some (Num 500), \<lparr>now = 150700, p0 = [], p1 = []\<rparr>) \<and>
   heartBeat 5 w_flat = Some (None, \<lparr>now = 7266, p0 = [], p1 = [(100, 512)]\<rparr>)"
  by (simp add: w_beat_def w_flat_def heartBeat_eval)


end
